theory Spec2Isabelle
  imports Complex_Main "HOL-Library.Sublist"
begin

section \<open>Python text primitives used by gepa_prompt_optimize.py\<close>

text \<open>
  Text is modelled as \<^typ>\<open>string\<close>, one \<^typ>\<open>char\<close> per code point, for code points
  below 256 (ASCII and Latin-1). The primitives below follow the behaviour of the
  methods of Python's \<open>str\<close> on that range.
\<close>

abbreviation dquote :: char where "dquote \<equiv> CHR 0x22"
abbreviation squote :: char where "squote \<equiv> CHR 0x27"
abbreviation backslash :: char where "backslash \<equiv> CHR 0x5C"
abbreviation backtick :: char where "backtick \<equiv> CHR 0x60"
abbreviation LF :: char where "LF \<equiv> CHR 0x0A"
abbreviation CR :: char where "CR \<equiv> CHR 0x0D"
abbreviation TAB :: char where "TAB \<equiv> CHR 0x09"

text \<open>\<open>str.isspace\<close> on one code point: 0x09-0x0D, 0x1C-0x20, 0x85 and 0xA0.\<close>

definition py_isspace :: "char \<Rightarrow> bool" where
  "py_isspace c =
     (let n = (of_char c :: nat)
      in (9 \<le> n \<and> n \<le> 13) \<or> (28 \<le> n \<and> n \<le> 32) \<or> n = 133 \<or> n = 160)"

text \<open>The line boundaries of \<open>str.splitlines\<close>: LF, VT, FF, CR, FS, GS, RS and NEL.\<close>

definition py_islinebreak :: "char \<Rightarrow> bool" where
  "py_islinebreak c =
     (let n = (of_char c :: nat)
      in (10 \<le> n \<and> n \<le> 13) \<or> (28 \<le> n \<and> n \<le> 30) \<or> n = 133)"

text \<open>\<open>s.strip()\<close> and \<open>s.strip(chars)\<close>: every leading and every trailing character of
  the given kind is removed.\<close>

definition strip_by :: "(char \<Rightarrow> bool) \<Rightarrow> string \<Rightarrow> string" where
  "strip_by P s = rev (dropWhile P (rev (dropWhile P s)))"

definition py_strip :: "string \<Rightarrow> string" where
  "py_strip s = strip_by py_isspace s"

definition py_strip_chars :: "string \<Rightarrow> string \<Rightarrow> string" where
  "py_strip_chars chars s = strip_by (\<lambda>c. c \<in> set chars) s"

text \<open>\<open>s.lower()\<close>: A-Z and the Latin-1 capitals 0xC0-0xDE (without the
  multiplication sign 0xD7) move up by 0x20.\<close>

definition py_lower_char :: "char \<Rightarrow> char" where
  "py_lower_char c =
     (let n = (of_char c :: nat)
      in if (65 \<le> n \<and> n \<le> 90) \<or> (192 \<le> n \<and> n \<le> 222 \<and> n \<noteq> 215)
         then char_of (n + 32) else c)"

definition py_lower :: "string \<Rightarrow> string" where
  "py_lower s = map py_lower_char s"

text \<open>\<open>sep.join(parts)\<close>.\<close>

fun py_join :: "string \<Rightarrow> string list \<Rightarrow> string" where
  "py_join sep [] = []"
| "py_join sep [x] = x"
| "py_join sep (x # y # ys) = x @ sep @ py_join sep (y # ys)"

text \<open>\<open>s.split(c)\<close> for a separator of one character; the empty text gives one empty
  field.\<close>

fun py_split :: "char \<Rightarrow> string \<Rightarrow> string list" where
  "py_split sep [] = [[]]"
| "py_split sep (c # cs) =
     (if c = sep then [] # py_split sep cs
      else (case py_split sep cs of
              [] \<Rightarrow> [[c]]
            | w # ws \<Rightarrow> (c # w) # ws))"

text \<open>\<open>s.splitlines()\<close>: the line under construction is kept reversed in \<open>cur\<close>; CR LF is
  one boundary; the empty text has no line, and a final boundary opens no further
  line.\<close>

fun splitlines_from :: "string \<Rightarrow> string \<Rightarrow> string list" where
  "splitlines_from cur [] = (if cur = [] then [] else [rev cur])"
| "splitlines_from cur (c # cs) =
     (if c = CR then
        (case cs of
           [] \<Rightarrow> [rev cur]
         | d # ds \<Rightarrow> if d = LF then rev cur # splitlines_from [] ds
                     else rev cur # splitlines_from [] (d # ds))
      else if py_islinebreak c then rev cur # splitlines_from [] cs
      else splitlines_from (c # cur) cs)"

definition py_splitlines :: "string \<Rightarrow> string list" where
  "py_splitlines s = splitlines_from [] s"

text \<open>\<open>s.replace(old, new)\<close>: occurrences are taken from the left and do not overlap;
  an empty \<open>old\<close> puts \<open>new\<close> before every character and at the end.\<close>

fun replace_nonempty :: "string \<Rightarrow> string \<Rightarrow> string \<Rightarrow> string" where
  "replace_nonempty old new [] = []"
| "replace_nonempty old new (c # cs) =
     (if prefix old (c # cs) \<and> old \<noteq> []
      then new @ replace_nonempty old new (drop (length old - 1) cs)
      else c # replace_nonempty old new cs)"

definition py_replace :: "string \<Rightarrow> string \<Rightarrow> string \<Rightarrow> string" where
  "py_replace old new s =
     (if old = [] then new @ concat (map (\<lambda>c. c # new) s)
      else replace_nonempty old new s)"

text \<open>\<open>repr\<close> of a text and of a list of texts, as an f-string prints them: the quote
  is the single quote unless the text has a single quote and no double quote;
  the quote and the backslash are escaped, and so are the characters that are not
  printable (\<open>\t\<close>, \<open>\n\<close>, \<open>\r\<close>, otherwise \<open>\xNN\<close> with lower-case hexadecimal
  digits).\<close>

definition hex_digit :: "nat \<Rightarrow> char" where
  "hex_digit n = (''0123456789abcdef'' ! (n mod 16))"

definition py_isprintable :: "char \<Rightarrow> bool" where
  "py_isprintable c =
     (let n = (of_char c :: nat)
      in (32 \<le> n \<and> n < 127) \<or> (161 \<le> n \<and> n \<noteq> 173))"

definition repr_char :: "char \<Rightarrow> char \<Rightarrow> string" where
  "repr_char q c =
     (if c = q \<or> c = backslash then [backslash, c]
      else if c = TAB then [backslash, CHR ''t'']
      else if c = LF then [backslash, CHR ''n'']
      else if c = CR then [backslash, CHR ''r'']
      else if \<not> py_isprintable c
        then [backslash, CHR ''x'', hex_digit (of_char c div 16), hex_digit (of_char c mod 16)]
      else [c])"

definition py_repr :: "string \<Rightarrow> string" where
  "py_repr s =
     (let q = (if squote \<in> set s \<and> dquote \<notin> set s then dquote else squote)
      in q # concat (map (repr_char q) s) @ [q])"

definition py_repr_list :: "string list \<Rightarrow> string" where
  "py_repr_list xs = ''['' @ py_join '', '' (map py_repr xs) @ '']''"

section \<open>Rows, errors and examples\<close>

text \<open>
  A row is a dictionary from column names to cells, as \<open>read_csv\<close> makes it with
  \<open>csv.DictReader\<close>. Python dictionaries keep insertion order, and \<open>list(row.keys())\<close>
  depends on it, so a row is an association list; its keys are distinct in every
  dictionary. A cell is a text, or \<open>None\<close> where the line of the file was shorter than
  the header: \<open>Some v\<close> is the text \<open>v\<close> and \<open>None\<close> is Python's \<open>None\<close>.
\<close>

type_synonym cell = "string option"

type_synonym row = "(string \<times> cell) list"

definition keys :: "row \<Rightarrow> string list" where
  "keys r = map fst r"

text \<open>\<open>row.get(k)\<close>: \<open>None\<close> for a key that the row does not have, \<open>Some c\<close> for the cell
  \<open>c\<close> under the key.\<close>

definition row_get :: "row \<Rightarrow> string \<Rightarrow> cell option" where
  "row_get r k = map_of r k"

datatype error =
    ValueError string
  | IndexError string
  | AttributeError string
  | OSError string
  | UnicodeDecodeError

record example =
  input :: string
  additional_context :: "(string \<times> string) list"
  answer :: string

record evaluation_result =
  score :: real
  feedback :: string
  objective_scores :: "(string \<times> real) list option"

section \<open>pick_feature_columns\<close>

definition pick_feature_columns :: "row list \<Rightarrow> string \<Rightarrow> string \<Rightarrow> error + string list" where
  "pick_feature_columns rows label_column feature_columns =
     (case rows of
        [] \<Rightarrow> Inl (ValueError ''CSV is empty'')
      | r0 # _ \<Rightarrow>
          (let headers = keys r0 in
           if label_column \<notin> set headers
           then Inl (ValueError (''label column '' @ [squote] @ label_column @ [squote]
                        @ '' not in CSV headers: '' @ py_repr_list headers))
           else if py_strip feature_columns \<noteq> []
           then (let cols = map py_strip
                              (filter (\<lambda>c. py_strip c \<noteq> []) (py_split CHR '','' feature_columns));
                     missing = filter (\<lambda>c. c \<notin> set headers) cols
                 in if missing \<noteq> []
                    then Inl (ValueError (''missing feature columns: '' @ py_repr_list missing))
                    else Inr cols)
           else Inr (filter (\<lambda>h. h \<noteq> label_column) headers)))"

section \<open>to_dataset\<close>

text \<open>\<open>row.get(label_column) or ""\<close>: an absent key, a \<open>None\<close> cell and an empty cell all
  give the empty text.\<close>

definition label_cell :: "row \<Rightarrow> string \<Rightarrow> string" where
  "label_cell r label_column =
     (case row_get r label_column of
        None \<Rightarrow> []
      | Some None \<Rightarrow> []
      | Some (Some v) \<Rightarrow> if v = [] then [] else v)"

text \<open>\<open>row.get(k, '').strip()\<close>: the default \<open>''\<close> stands for an absent key only; a \<open>None\<close>
  cell is returned as it is, and \<open>None\<close> has no \<open>strip\<close>.\<close>

definition feature_cell :: "row \<Rightarrow> string \<Rightarrow> error + string" where
  "feature_cell r k =
     (case row_get r k of
        None \<Rightarrow> Inr (py_strip [])
      | Some None \<Rightarrow> Inl (AttributeError
                       ([squote] @ ''NoneType'' @ [squote] @ '' object has no attribute ''
                        @ [squote] @ ''strip'' @ [squote]))
      | Some (Some v) \<Rightarrow> Inr (py_strip v))"

text \<open>The generator of line 106, consumed by \<open>join\<close> from the left: the first cell that
  raises ends it.\<close>

fun feature_lines :: "row \<Rightarrow> string list \<Rightarrow> error + string list" where
  "feature_lines r [] = Inr []"
| "feature_lines r (k # ks) =
     (case feature_cell r k of
        Inl e \<Rightarrow> Inl e
      | Inr v \<Rightarrow>
          (case feature_lines r ks of
             Inl e \<Rightarrow> Inl e
           | Inr ls \<Rightarrow> Inr ((k @ '': '' @ v) # ls)))"

definition input_text :: "row \<Rightarrow> string list \<Rightarrow> error + string" where
  "input_text r feature_cols =
     (case feature_lines r feature_cols of
        Inl e \<Rightarrow> Inl e
      | Inr ls \<Rightarrow> Inr (py_join [LF] ls))"

text \<open>The \<open>for\<close> loop of \<open>to_dataset\<close>, with the list \<open>dataset\<close> it appends to.\<close>

fun to_dataset_loop ::
  "row list \<Rightarrow> string \<Rightarrow> string list \<Rightarrow> example list \<Rightarrow> error + example list" where
  "to_dataset_loop [] label_column feature_cols dataset = Inr dataset"
| "to_dataset_loop (r # rows) label_column feature_cols dataset =
     (let ans = py_strip (label_cell r label_column) in
      if ans = [] then to_dataset_loop rows label_column feature_cols dataset
      else (case input_text r feature_cols of
              Inl e \<Rightarrow> Inl e
            | Inr txt \<Rightarrow>
                to_dataset_loop rows label_column feature_cols
                  (dataset @ [\<lparr>input = txt, additional_context = [], answer = ans\<rparr>])))"

definition to_dataset :: "row list \<Rightarrow> string \<Rightarrow> string list \<Rightarrow> error + example list" where
  "to_dataset rows label_column feature_cols =
     (case to_dataset_loop rows label_column feature_cols [] of
        Inl e \<Rightarrow> Inl e
      | Inr dataset \<Rightarrow>
          if dataset = [] then Inl (ValueError ''No usable rows with non-empty labels'')
          else Inr dataset)"

section \<open>exact_label_evaluator\<close>

text \<open>Line 119: \<open>response.strip().splitlines()[0].strip().strip('"').strip("'").lower()\<close>.
  Indexing the empty list of lines raises \<open>IndexError\<close>.\<close>

definition predicted_label :: "string \<Rightarrow> error + string" where
  "predicted_label response =
     (case py_splitlines (py_strip response) of
        [] \<Rightarrow> Inl (IndexError ''list index out of range'')
      | l # _ \<Rightarrow>
          Inr (py_lower (py_strip_chars [squote] (py_strip_chars [dquote] (py_strip l)))))"

definition expected_label :: "example \<Rightarrow> string" where
  "expected_label data = py_lower (py_strip (answer data))"

definition exact_label_evaluator :: "example \<Rightarrow> string \<Rightarrow> error + evaluation_result" where
  "exact_label_evaluator data response =
     (let expected = expected_label data in
      case predicted_label response of
        Inl e \<Rightarrow> Inl e
      | Inr predicted \<Rightarrow>
          (let ok = (predicted = expected);
               fb = (if ok
                     then ''Correct. Expected='' @ [squote] @ answer data @ [squote]
                          @ '', Predicted='' @ [squote] @ py_strip response @ [squote]
                     else ''Incorrect. Expected='' @ [squote] @ answer data @ [squote]
                          @ '', Predicted='' @ [squote] @ py_strip response @ [squote]
                          @ ''. Return only the label.'')
           in Inr \<lparr>score = (if ok then 1 else 0), feedback = fb, objective_scores = None\<rparr>))"

section \<open>Regular expressions as the module \<open>re\<close> runs them\<close>

text \<open>
  The two patterns of \<open>extract_prompt_from_service\<close> are sequences of single
  characters, character classes, greedy repetitions of one character or class, and one
  capturing group. A pattern is a list of nodes; the matcher tries the alternatives of a
  repetition in the order of a backtracking matcher (longest first) and returns the
  first way to match.
\<close>

datatype atom = Lit char | AnyChar | OneOf "char list" | NoneOf "char list"

datatype node = Single atom | ZeroOrMore atom | OneOrMore atom | GroupOpen | GroupClose

fun atom_ok :: "atom \<Rightarrow> char \<Rightarrow> bool" where
  "atom_ok (Lit a) c = (c = a)"
| "atom_ok AnyChar c = True"
| "atom_ok (OneOf cs) c = (c \<in> set cs)"
| "atom_ok (NoneOf cs) c = (c \<notin> set cs)"

text \<open>The capture of group 1: the text that was left when the group opened and when
  it closed.\<close>

type_synonym capture = "string \<times> string"

definition group1 :: "capture \<Rightarrow> string" where
  "group1 cap = take (length (fst cap) - length (snd cap)) (fst cap)"

fun rx_match :: "node list \<Rightarrow> string \<Rightarrow> capture \<Rightarrow> (capture \<times> string) option" where
  "rx_match [] s cap = Some (cap, s)"
| "rx_match (Single a # ns) [] cap = None"
| "rx_match (Single a # ns) (c # cs) cap =
     (if atom_ok a c then rx_match ns cs cap else None)"
| "rx_match (ZeroOrMore a # ns) [] cap = rx_match ns [] cap"
| "rx_match (ZeroOrMore a # ns) (c # cs) cap =
     (if atom_ok a c
      then (case rx_match (ZeroOrMore a # ns) cs cap of
              Some r \<Rightarrow> Some r
            | None \<Rightarrow> rx_match ns (c # cs) cap)
      else rx_match ns (c # cs) cap)"
| "rx_match (OneOrMore a # ns) [] cap = None"
| "rx_match (OneOrMore a # ns) (c # cs) cap =
     (if atom_ok a c then rx_match (ZeroOrMore a # ns) cs cap else None)"
| "rx_match (GroupOpen # ns) s cap = rx_match ns s (s, snd cap)"
| "rx_match (GroupClose # ns) s cap = rx_match ns s (fst cap, s)"

text \<open>\<open>re.search\<close>: the leftmost position where the pattern matches.\<close>

fun re_search :: "node list \<Rightarrow> string \<Rightarrow> (capture \<times> string) option" where
  "re_search ns [] = rx_match ns [] ([], [])"
| "re_search ns (c # cs) =
     (case rx_match ns (c # cs) ([], []) of
        Some r \<Rightarrow> Some r
      | None \<Rightarrow> re_search ns cs)"

text \<open>\<open>re.findall\<close> for a pattern with one group: group 1 of every match, from the left,
  without overlap. \<open>skip\<close> counts the characters that the last match has consumed and
  that are still ahead.\<close>

fun findall_from :: "node list \<Rightarrow> nat \<Rightarrow> string \<Rightarrow> string list" where
  "findall_from ns skip [] =
     (case rx_match ns [] ([], []) of
        Some (cap, rest) \<Rightarrow> [group1 cap]
      | None \<Rightarrow> [])"
| "findall_from ns (Suc k) (c # cs) = findall_from ns k cs"
| "findall_from ns 0 (c # cs) =
     (case rx_match ns (c # cs) ([], []) of
        Some (cap, rest) \<Rightarrow> group1 cap # findall_from ns (length cs - length rest) cs
      | None \<Rightarrow> findall_from ns 0 cs)"

definition re_findall :: "node list \<Rightarrow> string \<Rightarrow> string list" where
  "re_findall ns s = findall_from ns 0 s"

definition lits :: "string \<Rightarrow> node list" where
  "lits s = map (\<lambda>c. Single (Lit c)) s"

section \<open>extract_prompt_from_service\<close>

text \<open>
  The pattern of line 73 is a raw string, so each doubled backslash in the source
  reaches \<open>re\<close> as two backslashes, which \<open>re\<close> reads as one literal backslash, and the
  character after it stands for itself. Read as \<open>re\<close> reads it, the pattern is:
  the letters \<open>const\<close>; a backslash; one or more \<open>s\<close>; the letters \<open>prompt\<close>; a
  backslash; zero or more \<open>s\<close>; \<open>=\<close>; a backslash; zero or more \<open>s\<close>; a backslash; one
  character of the class that holds \<open>(\<close>, \<open>.\<close>, \<open>*\<close>, \<open>?\<close>, \<open>)\<close> and the backslash; a
  backslash; any character (\<open>DOTALL\<close>); the letters \<open>join\<close>; a backslash; group 1,
  which holds a double quote, two backslashes, \<open>n\<close>, a double quote and a backslash;
  and \<open>;\<close>.
\<close>

definition prompt_block_front :: "node list" where
  "prompt_block_front =
     lits ''const'' @ [Single (Lit backslash), OneOrMore (Lit CHR ''s'')]
     @ lits ''prompt'' @ [Single (Lit backslash), ZeroOrMore (Lit CHR ''s'')]
     @ lits ''='' @ [Single (Lit backslash), ZeroOrMore (Lit CHR ''s'')]
     @ [Single (Lit backslash),
        Single (OneOf [CHR ''('', CHR ''.'', CHR ''*'', CHR ''?'', CHR '')'', backslash]),
        Single (Lit backslash), Single AnyChar]
     @ lits ''join'' @ [Single (Lit backslash)]"

definition prompt_block_group :: string where
  "prompt_block_group = [dquote, backslash, backslash, CHR ''n'', dquote, backslash]"

definition prompt_block_pattern :: "node list" where
  "prompt_block_pattern =
     prompt_block_front @ GroupOpen # lits prompt_block_group @ GroupClose # lits '';''"

text \<open>The pattern of line 78: a backtick, group 1 with one or more characters other
  than the backtick, a backtick.\<close>

definition template_part_pattern :: "node list" where
  "template_part_pattern =
     [Single (Lit backtick), GroupOpen, OneOrMore (NoneOf [backtick]), GroupClose,
      Single (Lit backtick)]"

text \<open>Lines 83 and 84.\<close>

definition rewrite_placeholders :: "string \<Rightarrow> string" where
  "rewrite_placeholders prompt =
     py_replace ''${aggressivenessLevel}'' ''{aggressiveness_level}''
       (py_replace ''${businessType}'' ''{business_type}'' prompt)"

text \<open>
  A \<open>Path\<close> is modelled by the text that \<open>str\<close> gives for it. On a POSIX system
  \<open>Path(s)\<close> drops the empty components and the components \<open>.\<close> of \<open>s\<close>, keeps one
  leading slash (two when \<open>s\<close> starts with exactly two), and the path of no component
  and no root prints as \<open>.\<close>.
\<close>

definition path_text :: "string \<Rightarrow> string" where
  "path_text s =
     (let root = (if take 2 s = ''//'' \<and> take 3 s \<noteq> ''///'' then ''//''
                  else if take 1 s = ''/'' then ''/'' else []);
          parts = filter (\<lambda>x. x \<noteq> [] \<and> x \<noteq> ''.'') (py_split CHR ''/'' s);
          shown = root @ py_join ''/'' parts
      in if shown = [] then ''.'' else shown)"

text \<open>
  The files are a map from the text of a path to what is stored there: bytes that are
  not UTF-8, or the text that the bytes decode to. \<open>Path.read_text(encoding="utf-8")\<close>
  raises \<open>OSError\<close> for a file that is not there and \<open>UnicodeDecodeError\<close> for bytes that
  are not UTF-8; it reads in text mode, where CR LF and a single CR become LF.
\<close>

datatype stored = Undecodable | Decodable string

type_synonym files = "string \<Rightarrow> stored option"

fun universal_newlines :: "string \<Rightarrow> string" where
  "universal_newlines [] = []"
| "universal_newlines (c # cs) =
     (if c = CR then
        (case cs of
           [] \<Rightarrow> [LF]
         | d # ds \<Rightarrow> if d = LF then LF # universal_newlines ds
                     else LF # universal_newlines (d # ds))
      else c # universal_newlines cs)"

definition read_text :: "files \<Rightarrow> string \<Rightarrow> error + string" where
  "read_text fs path =
     (case fs path of
        None \<Rightarrow> Inl (OSError path)
      | Some Undecodable \<Rightarrow> Inl UnicodeDecodeError
      | Some (Decodable t) \<Rightarrow> Inr (universal_newlines t))"

text \<open>\<open>extract_prompt_from_service\<close> takes a \<open>Path\<close>: \<open>path\<close> is its text.\<close>

definition extract_prompt_from_service :: "files \<Rightarrow> string \<Rightarrow> error + string" where
  "extract_prompt_from_service fs path =
     (case read_text fs path of
        Inl e \<Rightarrow> Inl e
      | Inr text \<Rightarrow>
          (case re_search prompt_block_pattern text of
             None \<Rightarrow> Inl (ValueError (''Could not find prompt block in '' @ path))
           | Some (cap, rest) \<Rightarrow>
               (let block = group1 cap;
                    parts = re_findall template_part_pattern block
                in if parts = []
                   then Inl (ValueError ''No template literal parts found in prompt block'')
                   else Inr (rewrite_placeholders (py_join [LF] parts)))))"

section \<open>build_seed_prompt\<close>

record args =
  seed_prompt_file :: string
  service_file :: string
  business_type :: string
  aggressiveness_level :: string

text \<open>Lines 89 to 92: the template is the seed prompt file as it is when one is named,
  and the prompt extracted from the service file otherwise.\<close>

definition seed_template :: "files \<Rightarrow> args \<Rightarrow> error + string" where
  "seed_template fs a =
     (if seed_prompt_file a \<noteq> [] then read_text fs (path_text (seed_prompt_file a))
      else extract_prompt_from_service fs (path_text (service_file a)))"

definition return_only_suffix :: string where
  "return_only_suffix = [LF, LF] @ ''Return only the label string. No explanation.''"

text \<open>Lines 94 to 96.\<close>

definition fill_template :: "string \<Rightarrow> string \<Rightarrow> string \<Rightarrow> string" where
  "fill_template text bt al =
     py_replace ''{aggressiveness_level}'' al (py_replace ''{business_type}'' bt text)
     @ return_only_suffix"

definition build_seed_prompt :: "files \<Rightarrow> args \<Rightarrow> error + (string \<times> string) list" where
  "build_seed_prompt fs a =
     (case seed_template fs a of
        Inl e \<Rightarrow> Inl e
      | Inr text \<Rightarrow>
          Inr [(''system_prompt'', fill_template text (business_type a) (aggressiveness_level a))])"

section \<open>The normalisation of the prediction, in the words of the amended claim C2\<close>






section \<open>Auxiliary notions for the proofs\<close>

text \<open>\<open>clash_free d r\<close>: no non-empty end piece of \<open>d\<close> can start where \<open>r\<close> starts,
  that is, neither is a prefix of the other. It is what keeps an inserted \<open>r\<close> from
  completing an occurrence of \<open>d\<close> that began before it.\<close>

fun clash_free :: "string \<Rightarrow> string \<Rightarrow> bool" where
  "clash_free [] r = True"
| "clash_free (c # cs) r = (\<not> prefix (c # cs) r \<and> \<not> prefix r (c # cs) \<and> clash_free cs r)"

text \<open>The line of a feature column in a row whose cell there is not \<open>None\<close>, the rows
  with no \<open>None\<close> under the feature columns, and the example of such a row.\<close>

definition line_text :: "row \<Rightarrow> string \<Rightarrow> string" where
  "line_text r k =
     k @ '': '' @ (case row_get r k of
                    None \<Rightarrow> []
                  | Some None \<Rightarrow> []
                  | Some (Some v) \<Rightarrow> py_strip v)"

definition text_cells :: "row \<Rightarrow> string list \<Rightarrow> bool" where
  "text_cells r ks = (\<forall>k\<in>set ks. row_get r k \<noteq> Some None)"

definition example_of :: "row \<Rightarrow> string \<Rightarrow> string list \<Rightarrow> example" where
  "example_of r l fc =
     \<lparr>input = py_join [LF] (map (line_text r) fc), additional_context = [],
      answer = py_strip (label_cell r l)\<rparr>"

section \<open>Facts about the text primitives\<close>

subsection \<open>Trimming and lines\<close>

lemma py_strip_empty: "py_strip [] = []"
  by (simp add: py_strip_def strip_by_def)

lemma feature_cell_text:
  "row_get r k \<noteq> Some None \<Longrightarrow> feature_cell r k = Inr (drop (length k + 2) (line_text r k))"
  by (simp add: feature_cell_def line_text_def py_strip_empty split: option.splits)

lemma feature_cell_none: "row_get r k = Some None \<Longrightarrow> \<exists>e. feature_cell r k = Inl e"
  by (simp add: feature_cell_def)

lemma feature_lines_text:
  "text_cells r ks \<Longrightarrow> feature_lines r ks = Inr (map (line_text r) ks)"
proof (induction ks)
  case Nil
  show ?case by simp
next
  case (Cons k ks)
  then have k: "row_get r k \<noteq> Some None" and ks: "text_cells r ks"
    by (simp_all add: text_cells_def)
  have "feature_cell r k = Inr (drop (length k + 2) (line_text r k))"
    using k by (rule feature_cell_text)
  moreover have "k @ '': '' @ drop (length k + 2) (line_text r k) = line_text r k"
    by (simp add: line_text_def)
  ultimately show ?case using Cons.IH [OF ks] by simp
qed

lemma feature_lines_Inr: "feature_lines r ks = Inr ls \<Longrightarrow> text_cells r ks"
proof (induction ks arbitrary: ls)
  case Nil
  show ?case by (simp add: text_cells_def)
next
  case (Cons k ks)
  from Cons.prems obtain v ls' where v: "feature_cell r k = Inr v"
      and l: "feature_lines r ks = Inr ls'"
    by (auto split: sum.splits)
  from v have "row_get r k \<noteq> Some None" using feature_cell_none [of r k] by auto
  moreover from l have "text_cells r ks" by (rule Cons.IH)
  ultimately show ?case by (simp add: text_cells_def)
qed

lemma input_text_iff:
  "input_text r fc = Inr t \<longleftrightarrow> text_cells r fc \<and> t = py_join [LF] (map (line_text r) fc)"
proof
  assume a: "input_text r fc = Inr t"
  then obtain ls where ls: "feature_lines r fc = Inr ls"
    by (auto simp: input_text_def split: sum.splits)
  then have tc: "text_cells r fc" by (rule feature_lines_Inr)
  with ls have "ls = map (line_text r) fc" by (simp add: feature_lines_text)
  with a ls tc show "text_cells r fc \<and> t = py_join [LF] (map (line_text r) fc)"
    by (simp add: input_text_def)
next
  assume "text_cells r fc \<and> t = py_join [LF] (map (line_text r) fc)"
  then show "input_text r fc = Inr t"
    by (simp add: input_text_def feature_lines_text)
qed


lemma to_dataset_loop_text:
  "\<forall>r\<in>set (filter (\<lambda>r. py_strip (label_cell r l) \<noteq> []) rows). text_cells r fc \<Longrightarrow>
   to_dataset_loop rows l fc acc
     = Inr (acc @ map (\<lambda>r. example_of r l fc)
                    (filter (\<lambda>r. py_strip (label_cell r l) \<noteq> []) rows))"
proof (induction rows arbitrary: acc)
  case Nil
  show ?case by simp
next
  case (Cons r rows)
  from Cons.prems
  have rest: "\<forall>r\<in>set (filter (\<lambda>r. py_strip (label_cell r l) \<noteq> []) rows). text_cells r fc"
    by simp
  show ?case
  proof (cases "py_strip (label_cell r l) = []")
    case True
    with Cons.IH [OF rest, of acc] show ?thesis by simp
  next
    case False
    with Cons.prems have "text_cells r fc" by simp
    then have "input_text r fc = Inr (py_join [LF] (map (line_text r) fc))"
      by (simp add: input_text_iff)
    with False
      Cons.IH [OF rest, of "acc @ [\<lparr>input = py_join [LF] (map (line_text r) fc),
                                    additional_context = [],
                                    answer = py_strip (label_cell r l)\<rparr>]"]
    show ?thesis by (simp add: Let_def example_of_def)
  qed
qed

lemma strip_by_all: "\<forall>c\<in>set s. P c \<Longrightarrow> strip_by P s = []"
  by (auto simp: strip_by_def dest: set_dropWhileD)

lemma splitlines_from_nonempty: "cur \<noteq> [] \<or> s \<noteq> [] \<Longrightarrow> splitlines_from cur s \<noteq> []"
proof (induction cur s rule: splitlines_from.induct)
  case (1 cur)
  then show ?case by simp
next
  case (2 cur c cs)
  show ?case
  proof (cases "c = CR")
    case True
    then show ?thesis by (cases cs) simp_all
  next
    case False
    then show ?thesis using 2 by simp
  qed
qed

lemma dropWhile_clear_head: "x \<noteq> [] \<Longrightarrow> \<not> P (hd x) \<Longrightarrow> dropWhile P x = x"
  by (cases x) simp_all

lemma rstrip_append:
  assumes "x \<noteq> []" and "\<not> P (last x)"
  shows "rev (dropWhile P (rev (x @ z))) = x @ rev (dropWhile P (rev z))"
proof -
  have x: "dropWhile P (rev x) = rev x"
    using assms by (intro dropWhile_clear_head) (simp_all add: hd_rev)
  show ?thesis
  proof (cases "\<forall>c\<in>set (rev z). P c")
    case True
    then have "dropWhile P (rev z @ rev x) = dropWhile P (rev x)"
      by (intro dropWhile_append2) simp
    moreover from True have "dropWhile P (rev z) = []" by simp
    ultimately show ?thesis using x by simp
  next
    case False
    then obtain c where "c \<in> set (rev z)" "\<not> P c" by blast
    then have "dropWhile P (rev z @ rev x) = dropWhile P (rev z) @ rev x"
      by (rule dropWhile_append1)
    then show ?thesis by simp
  qed
qed

lemma strip_by_core:
  assumes "x \<noteq> []" and "\<not> P (hd x)" and "\<not> P (last x)"
    and a: "\<forall>c\<in>set a. P c" and b: "\<forall>c\<in>set b. P c"
  shows "strip_by P (a @ x @ b) = x"
proof -
  from a have "dropWhile P (a @ x @ b) = dropWhile P (x @ b)"
    by (intro dropWhile_append2) simp
  also have "\<dots> = x @ b" using assms(1,2) by (intro dropWhile_clear_head) simp_all
  finally have "strip_by P (a @ x @ b) = rev (dropWhile P (rev (x @ b)))"
    by (simp only: strip_by_def)
  also have "\<dots> = x @ rev (dropWhile P (rev b))" using assms(1,3) by (rule rstrip_append)
  also from b have "dropWhile P (rev b) = []" by simp
  finally show ?thesis by simp
qed

lemma strip_by_lead:
  assumes "x \<noteq> []" and "\<not> P (hd x)" and "\<not> P (last x)" and a: "\<forall>c\<in>set a. P c"
  shows "\<exists>t. strip_by P (a @ x @ z) = x @ t \<and> prefix t z"
proof -
  from a have "dropWhile P (a @ x @ z) = dropWhile P (x @ z)"
    by (intro dropWhile_append2) simp
  also have "\<dots> = x @ z" using assms(1,2) by (intro dropWhile_clear_head) simp_all
  finally have "strip_by P (a @ x @ z) = rev (dropWhile P (rev (x @ z)))"
    by (simp only: strip_by_def)
  also have "\<dots> = x @ rev (dropWhile P (rev z))" using assms(1,3) by (rule rstrip_append)
  finally have "strip_by P (a @ x @ z) = x @ rev (dropWhile P (rev z))" .
  moreover have "prefix (rev (dropWhile P (rev z))) z"
  proof -
    have "suffix (dropWhile P (rev z)) (rev z)" by (rule suffix_dropWhile)
    then show ?thesis by (simp add: suffix_to_prefix)
  qed
  ultimately show ?thesis by blast
qed

lemma CR_is_linebreak: "py_islinebreak CR"
  by (simp add: py_islinebreak_def)

lemma splitlines_from_plain:
  "\<forall>c\<in>set x. \<not> py_islinebreak c \<Longrightarrow>
   splitlines_from cur (x @ y) = splitlines_from (rev x @ cur) y"
proof (induction x arbitrary: cur)
  case Nil
  show ?case by simp
next
  case (Cons c x)
  then have "\<not> py_islinebreak c" by simp
  with CR_is_linebreak have "c \<noteq> CR" by blast
  with \<open>\<not> py_islinebreak c\<close> have "splitlines_from cur ((c # x) @ y) = splitlines_from (c # cur) (x @ y)"
    by simp
  also have "\<dots> = splitlines_from (rev x @ c # cur) y" using Cons by simp
  finally show ?case by simp
qed

lemma splitlines_from_break:
  "py_islinebreak c \<Longrightarrow> \<exists>ls. splitlines_from cur (c # y) = rev cur # ls"
  by (cases y) auto

lemma first_line_plain:
  assumes "x \<noteq> []" and "\<forall>c\<in>set x. \<not> py_islinebreak c"
    and "z = [] \<or> py_islinebreak (hd z)"
  shows "\<exists>ls. py_splitlines (x @ z) = x # ls"
proof -
  have e: "py_splitlines (x @ z) = splitlines_from (rev x) z"
    using splitlines_from_plain [OF assms(2), of "[]" z] by (simp add: py_splitlines_def)
  show ?thesis
  proof (cases z)
    case Nil
    with e assms(1) show ?thesis by simp
  next
    case (Cons c y)
    with assms(3) have "py_islinebreak c" by simp
    then obtain ls where "splitlines_from (rev x) (c # y) = rev (rev x) # ls"
      using splitlines_from_break by blast
    with e Cons show ?thesis by simp
  qed
qed

lemma hd_pad: "x \<noteq> [] \<Longrightarrow> hd (replicate m c @ x @ y) = (if m = 0 then hd x else c)"
  by (cases m) simp_all

lemma last_pad: "x \<noteq> [] \<Longrightarrow> last (y @ x @ replicate n c) = (if n = 0 then last x else c)"
  by (cases n) simp_all

lemma quotes_plain:
  "\<not> py_isspace dquote" "\<not> py_isspace squote"
  "\<not> py_islinebreak dquote" "\<not> py_islinebreak squote"
  by (simp_all add: py_isspace_def py_islinebreak_def)






subsection \<open>Replacing\<close>

lemma clash_free_suffix:
  "clash_free d r \<Longrightarrow> suffix t d \<Longrightarrow> t \<noteq> [] \<Longrightarrow> \<not> prefix t r \<and> \<not> prefix r t"
  by (induction d) (auto simp: suffix_Cons)

lemma clash_free_prefix_append:
  assumes "clash_free d r" and "suffix t d" and "prefix t (r @ x)"
  shows "t = []"
proof (rule ccontr)
  assume "t \<noteq> []"
  with assms(1,2) have n: "\<not> prefix t r" "\<not> prefix r t"
    using clash_free_suffix by blast+
  from assms(3) have "prefix t r \<or> prefix r t"
    by (auto simp: prefix_append)
  with n show False by blast
qed

lemma prefix_split_drop:
  assumes "prefix old (c # cs) \<and> old \<noteq> []"
  shows "c # cs = old @ drop (length old - 1) cs"
proof -
  from assms obtain zs where z: "c # cs = old @ zs" by (auto simp: prefix_def)
  with assms obtain old' where o: "old = c # old'" by (cases old) auto
  with z have "cs = old' @ zs" by simp
  then have "drop (length old - 1) cs = zs" using o by simp
  with z show ?thesis by simp
qed

lemma sublist_skip_prefix:
  "d \<noteq> [] \<Longrightarrow> hd d \<notin> set u \<Longrightarrow> sublist d (u @ y) \<Longrightarrow> sublist d y"
proof (induction u)
  case Nil
  then show ?case by simp
next
  case (Cons a u)
  from Cons.prems(3) have "prefix d (a # u @ y) \<or> sublist d (u @ y)"
    by (simp add: sublist_Cons_right)
  moreover have "\<not> prefix d (a # u @ y)"
    using Cons.prems(1,2) by (cases d) auto
  ultimately show ?case using Cons by simp
qed

lemma replace_nonempty_absent:
  "\<not> sublist old s \<Longrightarrow> replace_nonempty old new s = s"
proof (induction s)
  case Nil
  show ?case by simp
next
  case (Cons c cs)
  then have "\<not> prefix old (c # cs)" "\<not> sublist old cs"
    by (auto simp: sublist_Cons_right)
  with Cons.IH show ?case by simp
qed

lemma replace_nonempty_keeps_prefix:
  "p \<noteq> [] \<Longrightarrow> hd p \<notin> set t \<Longrightarrow> prefix t s \<Longrightarrow> prefix t (replace_nonempty p r s)"
proof (induction s arbitrary: t)
  case Nil
  then show ?case by simp
next
  case (Cons c cs)
  show ?case
  proof (cases t)
    case Nil
    then show ?thesis by simp
  next
    case (Cons a t')
    with Cons.prems have a: "a = c" and t': "prefix t' cs" and h: "hd p \<noteq> c" "hd p \<notin> set t'"
      by auto
    from h(1) Cons.prems(1) have "\<not> prefix p (c # cs)" by (cases p) auto
    moreover have "prefix t' (replace_nonempty p r cs)"
      using Cons.IH [OF Cons.prems(1) h(2) t'] .
    ultimately show ?thesis using Cons a by simp
  qed
qed

text \<open>When \<open>old\<close> occurs, \<open>new\<close> is in the result.\<close>
lemma replace_nonempty_inserts:
  "sublist p s \<Longrightarrow> p \<noteq> [] \<Longrightarrow> sublist r (replace_nonempty p r s)"
proof (induction p r s rule: replace_nonempty.induct)
  case (1 old new)
  then show ?case by simp
next
  case (2 old new c cs)
  show ?case
  proof (cases "prefix old (c # cs) \<and> old \<noteq> []")
    case True
    then show ?thesis by simp
  next
    case False
    with "2.prems" have "sublist old cs" by (auto simp: sublist_Cons_right)
    with False "2.IH"(2) "2.prems"(2) have "sublist new (replace_nonempty old new cs)" by blast
    with False show ?thesis by (simp add: sublist_Cons_right)
  qed
qed


lemma replace_nonempty_hit:
  "prefix old (c # cs) \<and> old \<noteq> [] \<Longrightarrow>
   replace_nonempty old new (c # cs) = new @ replace_nonempty old new (drop (length old - 1) cs)"
  by (subst replace_nonempty.simps(2)) (simp only: simp_thms if_True)

lemma replace_nonempty_miss:
  "\<not> (prefix old (c # cs) \<and> old \<noteq> []) \<Longrightarrow>
   replace_nonempty old new (c # cs) = c # replace_nonempty old new cs"
  by (subst replace_nonempty.simps(2)) (simp only: if_False)

declare replace_nonempty.simps(2) [simp del]

text \<open>A prefix of the result that is an end piece of the pattern's tail was a prefix
  of the argument.\<close>
lemma replace_nonempty_prefix_back:
  "clash_free p' r \<Longrightarrow> suffix t p' \<Longrightarrow> prefix t (replace_nonempty p r s) \<Longrightarrow> prefix t s"
proof (induction p r s arbitrary: t rule: replace_nonempty.induct)
  case (1 old new)
  from "1.prems"(3) show ?case by simp
next
  case (2 old new c cs)
  show ?case
  proof (cases "prefix old (c # cs) \<and> old \<noteq> []")
    case True
    from "2.prems"(3) have "prefix t (new @ replace_nonempty old new (drop (length old - 1) cs))"
      unfolding replace_nonempty_hit [OF True] .
    then have "t = []" by (rule clash_free_prefix_append [OF "2.prems"(1,2)])
    then show ?thesis by simp
  next
    case False
    from "2.prems"(3) have pt: "prefix t (c # replace_nonempty old new cs)"
      unfolding replace_nonempty_miss [OF False] .
    show ?thesis
    proof (cases t)
      case Nil
      then show ?thesis by simp
    next
      case (Cons a t')
      with pt have a: "a = c" and t': "prefix t' (replace_nonempty old new cs)" by auto
      from "2.prems"(2) have "suffix t' p'" unfolding Cons by (rule suffix_ConsD)
      from "2.IH"(2) [OF False "2.prems"(1) this t'] have "prefix t' cs" .
      with Cons a show ?thesis by simp
    qed
  qed
qed

text \<open>No occurrence of \<open>old\<close> is left, when its first character occurs nowhere else in it
  and not in \<open>new\<close>.\<close>
lemma replace_nonempty_removes_gen:
  "p = c0 # p' \<Longrightarrow> c0 \<notin> set r \<Longrightarrow> clash_free p' r \<Longrightarrow> c0 \<notin> set u
   \<Longrightarrow> \<not> sublist p (u @ replace_nonempty p r s)"
proof (induction p r s arbitrary: u rule: replace_nonempty.induct)
  case (1 old new)
  have "c0 \<in> set old" using "1.prems" by simp
  with "1.prems"(4) show ?case using set_mono_sublist by fastforce
next
  case (2 old new c cs)
  note old = \<open>old = c0 # p'\<close>
  show ?case
  proof (cases "prefix old (c # cs) \<and> old \<noteq> []")
    case True
    have "c0 \<notin> set (u @ new)" using "2.prems" by simp
    from "2.IH"(1) [OF True "2.prems"(1,2,3) this] show ?thesis
      by (simp add: replace_nonempty_hit [OF True])
  next
    case False
    note miss = replace_nonempty_miss [OF False]
    show ?thesis
    proof (cases "c = c0")
      case ne: False
      then have "c0 \<notin> set (u @ [c])" using "2.prems"(4) by simp
      from "2.IH"(2) [OF False "2.prems"(1,2,3) this] show ?thesis
        by (simp add: miss)
    next
      case eq: True
      show ?thesis
      proof
        assume "sublist old (u @ replace_nonempty old new (c # cs))"
        then have "sublist old (u @ c0 # replace_nonempty old new cs)"
          unfolding miss unfolding eq .
        moreover have "old \<noteq> []" "hd old \<notin> set u" using old "2.prems"(4) by simp_all
        ultimately have "sublist old (c0 # replace_nonempty old new cs)"
          by (rule sublist_skip_prefix [rotated 2])
        then have "prefix old (c0 # replace_nonempty old new cs)
                   \<or> sublist old (replace_nonempty old new cs)"
          by (simp add: sublist_Cons_right)
        moreover have "\<not> sublist old (replace_nonempty old new cs)"
          using "2.IH"(2) [OF False "2.prems"(1,2,3), of "[]"] by simp
        ultimately have "prefix old (c0 # replace_nonempty old new cs)" by blast
        then have "prefix p' (replace_nonempty old new cs)" unfolding old by simp
        then have "prefix p' cs"
          by (rule replace_nonempty_prefix_back [OF "2.prems"(3) suffix_order.refl])
        then have "prefix old (c # cs)" unfolding old eq by simp
        with False old show False by blast
      qed
    qed
  qed
qed

lemma replace_nonempty_removes:
  assumes "p = c0 # p'" and "c0 \<notin> set r" and "clash_free p' r"
  shows "\<not> sublist p (replace_nonempty p r s)"
  using replace_nonempty_removes_gen [OF assms, of "[]" s] by simp

text \<open>An occurrence of \<open>d\<close> cannot reach into an inserted \<open>r\<close>.\<close>
lemma sublist_around_filler:
  assumes d: "d \<noteq> []" and h: "hd d \<notin> set r" and cf: "clash_free d r"
  shows "sublist d (u @ r @ y) \<Longrightarrow> sublist d u \<or> sublist d y"
proof (induction u)
  case Nil
  then have "sublist d (r @ y)" by simp
  with d h have "sublist d y" by (rule sublist_skip_prefix)
  then show ?case ..
next
  case (Cons a u)
  from Cons.prems have "prefix d ((a # u) @ r @ y) \<or> sublist d (u @ r @ y)"
    by (simp add: sublist_Cons_right)
  then show ?case
  proof
    assume "sublist d (u @ r @ y)"
    with Cons.IH have "sublist d u \<or> sublist d y" .
    then show ?thesis by (auto simp: sublist_Cons_right)
  next
    assume "prefix d ((a # u) @ r @ y)"
    then have "prefix d (a # u) \<or> (\<exists>us. d = (a # u) @ us \<and> prefix us (r @ y))"
      unfolding prefix_append .
    then show ?thesis
    proof
      assume "prefix d (a # u)"
      then show ?thesis by (simp add: sublist_Cons_right)
    next
      assume "\<exists>us. d = (a # u) @ us \<and> prefix us (r @ y)"
      then obtain us where us: "d = (a # u) @ us" "prefix us (r @ y)" by blast
      from us(1) have "suffix us d" unfolding suffix_def by blast
      with cf have "us = []" using us(2) by (rule clash_free_prefix_append)
      with us(1) have "prefix d (a # u)" by simp
      then show ?thesis by (simp add: sublist_Cons_right)
    qed
  qed
qed

text \<open>Replacing makes no new occurrence of \<open>d\<close>.\<close>
lemma replace_nonempty_creates_nothing_gen:
  "d \<noteq> [] \<Longrightarrow> hd d \<notin> set r \<Longrightarrow> clash_free d r
   \<Longrightarrow> sublist d (u @ replace_nonempty p r s) \<Longrightarrow> sublist d (u @ s)"
proof (induction p r s arbitrary: u rule: replace_nonempty.induct)
  case (1 old new)
  from "1.prems"(4) show ?case by simp
next
  case (2 old new c cs)
  show ?case
  proof (cases "prefix old (c # cs) \<and> old \<noteq> []")
    case True
    let ?rest = "drop (length old - 1) cs"
    have split: "c # cs = old @ ?rest" by (rule prefix_split_drop [OF True])
    from "2.prems"(4) have "sublist d ((u @ new) @ replace_nonempty old new ?rest)"
      unfolding replace_nonempty_hit [OF True] by simp
    with "2.IH"(1) [OF True "2.prems"(1,2,3)] have "sublist d ((u @ new) @ ?rest)" .
    then have "sublist d (u @ new @ ?rest)" by simp
    with "2.prems"(1,2,3) have "sublist d u \<or> sublist d ?rest" by (rule sublist_around_filler)
    then have "sublist d (u @ old @ ?rest)"
      by (auto simp: sublist_append)
    then show ?thesis unfolding split .
  next
    case False
    from "2.prems"(4) have "sublist d ((u @ [c]) @ replace_nonempty old new cs)"
      unfolding replace_nonempty_miss [OF False] by simp
    with "2.IH"(2) [OF False "2.prems"(1,2,3)] have "sublist d ((u @ [c]) @ cs)" .
    then show ?thesis by simp
  qed
qed

lemma replace_nonempty_creates_nothing:
  assumes "d \<noteq> []" and "hd d \<notin> set r" and "clash_free d r"
    and "\<not> sublist d s"
  shows "\<not> sublist d (replace_nonempty p r s)"
proof
  assume "sublist d (replace_nonempty p r s)"
  then have "sublist d ([] @ replace_nonempty p r s)" by simp
  with assms(1,2,3) have "sublist d ([] @ s)" by (rule replace_nonempty_creates_nothing_gen)
  with assms(4) show False by simp
qed

text \<open>An occurrence of another token with the same opening character is kept.\<close>
lemma replace_nonempty_keeps_sibling:
  "p = c0 # p' \<Longrightarrow> c0 \<notin> set p' \<Longrightarrow> d = c0 # d' \<Longrightarrow> c0 \<notin> set d'
   \<Longrightarrow> \<not> prefix p d \<Longrightarrow> \<not> prefix d p
   \<Longrightarrow> sublist d s \<Longrightarrow> sublist d (replace_nonempty p r s)"
proof (induction p r s rule: replace_nonempty.induct)
  case (1 old new)
  from "1.prems"(3,7) show ?case by simp
next
  case (2 old new c cs)
  note old = \<open>old = c0 # p'\<close> and d = \<open>d = c0 # d'\<close>
  show ?case
  proof (cases "prefix old (c # cs) \<and> old \<noteq> []")
    case True
    let ?rest = "drop (length old - 1) cs"
    have split: "c # cs = old @ ?rest" by (rule prefix_split_drop [OF True])
    from "2.prems"(7) have "sublist d (c0 # p' @ ?rest)" unfolding split old by simp
    then have "prefix d (c0 # p' @ ?rest) \<or> sublist d (p' @ ?rest)"
      by (simp add: sublist_Cons_right)
    moreover have "\<not> prefix d (c0 # p' @ ?rest)"
    proof
      assume "prefix d (c0 # p' @ ?rest)"
      then have "prefix d (old @ ?rest)" unfolding old by simp
      moreover have "prefix old (old @ ?rest)" by simp
      ultimately have "prefix d old \<or> prefix old d" by (rule prefix_same_cases)
      with "2.prems"(5,6) show False by blast
    qed
    ultimately have "sublist d (p' @ ?rest)" by blast
    moreover have "d \<noteq> []" "hd d \<notin> set p'" using d "2.prems"(2) by simp_all
    ultimately have "sublist d ?rest" by (rule sublist_skip_prefix [rotated 2])
    with "2.IH"(1) [OF True "2.prems"(1,2,3,4,5,6)]
    have "sublist d (replace_nonempty old new ?rest)" .
    then show ?thesis unfolding replace_nonempty_hit [OF True] by (simp add: sublist_append)
  next
    case False
    from "2.prems"(7) have "prefix d (c # cs) \<or> sublist d cs"
      by (simp add: sublist_Cons_right)
    then show ?thesis
    proof
      assume "sublist d cs"
      with "2.IH"(2) [OF False "2.prems"(1,2,3,4,5,6)]
      have "sublist d (replace_nonempty old new cs)" .
      then show ?thesis unfolding replace_nonempty_miss [OF False]
        by (simp add: sublist_Cons_right)
    next
      assume "prefix d (c # cs)"
      then have c: "c = c0" and d': "prefix d' cs" unfolding d by simp_all
      have "old \<noteq> []" "hd old \<notin> set d'" using old "2.prems"(4) by simp_all
      then have "prefix d' (replace_nonempty old new cs)"
        using d' by (rule replace_nonempty_keeps_prefix)
      then have "prefix d (c # replace_nonempty old new cs)" unfolding d c by simp
      then show ?thesis unfolding replace_nonempty_miss [OF False]
        by (simp add: sublist_Cons_right)
    qed
  qed
qed

text \<open>An occurrence of a text without the first and last character of \<open>old\<close> is kept.\<close>
lemma replace_nonempty_keeps_plain:
  "p \<noteq> [] \<Longrightarrow> hd p \<notin> set d \<Longrightarrow> last p \<notin> set d \<Longrightarrow> \<not> sublist d p
   \<Longrightarrow> sublist d s \<Longrightarrow> sublist d (replace_nonempty p r s)"
proof (induction p r s rule: replace_nonempty.induct)
  case (1 old new)
  from "1.prems"(4,5) show ?case by simp
next
  case (2 old new c cs)
  show ?case
  proof (cases "prefix old (c # cs) \<and> old \<noteq> []")
    case True
    let ?rest = "drop (length old - 1) cs"
    have split: "c # cs = old @ ?rest" by (rule prefix_split_drop [OF True])
    from "2.prems"(5) have "sublist d (old @ ?rest)" unfolding split .
    then have "sublist d old \<or> sublist d ?rest
        \<or> (\<exists>xs1 xs2. d = xs1 @ xs2 \<and> suffix xs1 old \<and> prefix xs2 ?rest)"
      unfolding sublist_append .
    moreover have "\<not> (\<exists>xs1 xs2. d = xs1 @ xs2 \<and> suffix xs1 old \<and> prefix xs2 ?rest) \<or> sublist d ?rest"
    proof (rule disjCI)
      assume "\<not> sublist d ?rest"
      show "\<not> (\<exists>xs1 xs2. d = xs1 @ xs2 \<and> suffix xs1 old \<and> prefix xs2 ?rest)"
      proof
        assume "\<exists>xs1 xs2. d = xs1 @ xs2 \<and> suffix xs1 old \<and> prefix xs2 ?rest"
        then obtain xs1 xs2 where x: "d = xs1 @ xs2" "suffix xs1 old" "prefix xs2 ?rest"
          by blast
        show False
        proof (cases "xs1 = []")
          case True
          with x have "prefix d ?rest" by simp
          then have "sublist d ?rest" by (rule prefix_imp_sublist)
          with \<open>\<not> sublist d ?rest\<close> show False ..
        next
          case False
          from x(2) obtain zs where "old = zs @ xs1" unfolding suffix_def by blast
          with False have "last old = last xs1" by simp
          with False x(1) have "last old \<in> set d" by simp
          with "2.prems"(3) show False ..
        qed
      qed
    qed
    ultimately have "sublist d ?rest" using "2.prems"(4) by blast
    with "2.IH"(1) [OF True "2.prems"(1,2,3,4)]
    have "sublist d (replace_nonempty old new ?rest)" .
    then show ?thesis unfolding replace_nonempty_hit [OF True] by (simp add: sublist_append)
  next
    case False
    from "2.prems"(5) have "prefix d (c # cs) \<or> sublist d cs"
      by (simp add: sublist_Cons_right)
    then show ?thesis
    proof
      assume "sublist d cs"
      with "2.IH"(2) [OF False "2.prems"(1,2,3,4)]
      have "sublist d (replace_nonempty old new cs)" .
      then show ?thesis unfolding replace_nonempty_miss [OF False]
        by (simp add: sublist_Cons_right)
    next
      assume "prefix d (c # cs)"
      with "2.prems"(1,2) have "prefix d (replace_nonempty old new (c # cs))"
        by (rule replace_nonempty_keeps_prefix)
      then show ?thesis by (rule prefix_imp_sublist)
    qed
  qed
qed

lemma sublist_before_tail:
  assumes "d \<noteq> []" and "last d \<notin> set z" and "\<not> sublist d x"
  shows "\<not> sublist d (x @ z)"
proof
  assume "sublist d (x @ z)"
  then have "sublist d x \<or> sublist d z
        \<or> (\<exists>xs1 xs2. d = xs1 @ xs2 \<and> suffix xs1 x \<and> prefix xs2 z)"
    unfolding sublist_append .
  moreover have "\<not> sublist d z"
  proof
    assume "sublist d z"
    then have "set d \<subseteq> set z" by (rule set_mono_sublist)
    moreover have "last d \<in> set d" using assms(1) by (rule last_in_set)
    ultimately have "last d \<in> set z" by (rule subsetD)
    with assms(2) show False ..
  qed
  moreover have "\<not> (\<exists>xs1 xs2. d = xs1 @ xs2 \<and> suffix xs1 x \<and> prefix xs2 z)"
  proof
    assume "\<exists>xs1 xs2. d = xs1 @ xs2 \<and> suffix xs1 x \<and> prefix xs2 z"
    then obtain xs1 xs2 where x: "d = xs1 @ xs2" "suffix xs1 x" "prefix xs2 z" by blast
    show False
    proof (cases "xs2 = []")
      case True
      with x have "suffix d x" by simp
      then have "sublist d x" by (rule suffix_imp_sublist)
      with assms(3) show False ..
    next
      case False
      with x(1) have l: "last d = last xs2" by simp
      from x(3) have "set xs2 \<subseteq> set z" by (rule set_mono_prefix)
      moreover have "last xs2 \<in> set xs2" using False by (rule last_in_set)
      ultimately have "last xs2 \<in> set z" by (rule subsetD)
      with assms(2) l show False by simp
    qed
  qed
  ultimately show False using assms(3) by blast
qed

subsection \<open>Matching\<close>

lemma rx_match_keeps_capture:
  "GroupOpen \<notin> set ns \<Longrightarrow> GroupClose \<notin> set ns \<Longrightarrow> rx_match ns s cap = Some (cap', r)
   \<Longrightarrow> cap' = cap"
proof (induction ns s cap rule: rx_match.induct)
  case (5 a ns c cs cap)
  show ?case
  proof (cases "atom_ok a c")
    case True
    show ?thesis
    proof (cases "rx_match (ZeroOrMore a # ns) cs cap")
      case None
      with True "5.prems"(3) have "rx_match ns (c # cs) cap = Some (cap', r)" by simp
      with "5.IH"(2) [OF True None] "5.prems"(1,2) show ?thesis by simp
    next
      case (Some res)
      with True "5.prems"(3) have "rx_match (ZeroOrMore a # ns) cs cap = Some (cap', r)" by simp
      with "5.IH"(1) [OF True] "5.prems"(1,2) show ?thesis by simp
    qed
  next
    case False
    with "5.prems"(3) have "rx_match ns (c # cs) cap = Some (cap', r)" by simp
    with "5.IH"(3) [OF False] "5.prems"(1,2) show ?thesis by simp
  qed
qed (simp_all split: if_splits)

lemma rx_match_lits:
  "rx_match (lits w @ ns) s cap =
     (if prefix w s then rx_match ns (drop (length w) s) cap else None)"
proof (induction w arbitrary: s)
  case Nil
  show ?case by (simp add: lits_def)
next
  case (Cons a w)
  then have ih: "\<And>s. rx_match (lits w @ ns) s cap =
     (if prefix w s then rx_match ns (drop (length w) s) cap else None)" .
  show ?case
  proof (cases s)
    case Nil
    then show ?thesis by (simp add: lits_def)
  next
    case (Cons c cs)
    have "rx_match (lits (a # w) @ ns) (c # cs) cap =
            (if c = a then rx_match (lits w @ ns) cs cap else None)"
      by (simp add: lits_def)
    then show ?thesis unfolding Cons ih by auto
  qed
qed

lemma rx_match_star_exit:
  "rx_match (ZeroOrMore a # ns) s cap = Some res \<Longrightarrow> \<exists>s'. rx_match ns s' cap = Some res"
proof (induction s)
  case Nil
  then show ?case by auto
next
  case (Cons c cs)
  show ?case
  proof (cases "atom_ok a c \<and> rx_match (ZeroOrMore a # ns) cs cap \<noteq> None")
    case True
    with Cons.prems have "rx_match (ZeroOrMore a # ns) cs cap = Some res" by auto
    then show ?thesis by (rule Cons.IH)
  next
    case False
    with Cons.prems have "rx_match ns (c # cs) cap = Some res"
      by (auto split: if_splits option.splits)
    then show ?thesis ..
  qed
qed

lemma rx_match_skip_front:
  "GroupOpen \<notin> set xs \<Longrightarrow> GroupClose \<notin> set xs \<Longrightarrow> rx_match (xs @ ys) s cap = Some res
   \<Longrightarrow> \<exists>s'. rx_match ys s' cap = Some res"
proof (induction xs arbitrary: s)
  case Nil
  then show ?case by auto
next
  case (Cons x xs)
  have "\<exists>s1. rx_match (xs @ ys) s1 cap = Some res"
  proof (cases x)
    case (Single a)
    with Cons.prems(3) show ?thesis by (cases s) (auto split: if_splits)
  next
    case (ZeroOrMore a)
    with Cons.prems(3) have "rx_match (ZeroOrMore a # xs @ ys) s cap = Some res" by simp
    then show ?thesis by (rule rx_match_star_exit)
  next
    case (OneOrMore a)
    with Cons.prems(3) obtain cs where "rx_match (ZeroOrMore a # xs @ ys) cs cap = Some res"
      by (cases s) (auto split: if_splits)
    then show ?thesis by (rule rx_match_star_exit)
  next
    case GroupOpen
    with Cons.prems(1) show ?thesis by simp
  next
    case GroupClose
    with Cons.prems(2) show ?thesis by simp
  qed
  then obtain s1 where "rx_match (xs @ ys) s1 cap = Some res" ..
  moreover from Cons.prems(1,2) have "GroupOpen \<notin> set xs" "GroupClose \<notin> set xs" by simp_all
  ultimately show ?case using Cons.IH by blast
qed

lemma re_search_is_match:
  "re_search ns s = Some res \<Longrightarrow> \<exists>s'. rx_match ns s' ([], []) = Some res"
proof (induction s)
  case Nil
  then show ?case by auto
next
  case (Cons c cs)
  show ?case
  proof (cases "rx_match ns (c # cs) ([], [])")
    case None
    with Cons.prems have "re_search ns cs = Some res" by simp
    then show ?thesis by (rule Cons.IH)
  next
    case (Some r)
    with Cons.prems have "rx_match ns (c # cs) ([], []) = Some res" by simp
    then show ?thesis ..
  qed
qed

lemma prompt_block_group_fixed:
  assumes "re_search prompt_block_pattern text = Some (cap, rest)"
  shows "group1 cap = prompt_block_group"
proof -
  let ?w = "prompt_block_group"
  let ?tail = "GroupOpen # lits ?w @ GroupClose # lits '';''"
  have split: "prompt_block_pattern = prompt_block_front @ ?tail"
    by (simp add: prompt_block_pattern_def)
  have front: "GroupOpen \<notin> set prompt_block_front" "GroupClose \<notin> set prompt_block_front"
    by (auto simp: prompt_block_front_def lits_def)
  from assms obtain s0 where "rx_match (prompt_block_front @ ?tail) s0 ([], []) = Some (cap, rest)"
    unfolding split using re_search_is_match by blast
  with front obtain s1 where "rx_match ?tail s1 ([], []) = Some (cap, rest)"
    using rx_match_skip_front by blast
  then have m: "rx_match (lits ?w @ GroupClose # lits '';'') s1 (s1, []) = Some (cap, rest)"
    by simp
  then have pre: "prefix ?w s1"
    unfolding rx_match_lits by (simp split: if_splits)
  with m have "rx_match (GroupClose # lits '';'') (drop (length ?w) s1) (s1, []) = Some (cap, rest)"
    unfolding rx_match_lits by (simp split: if_splits)
  then have "rx_match (lits '';'') (drop (length ?w) s1) (s1, drop (length ?w) s1) = Some (cap, rest)"
    by simp
  moreover have "GroupOpen \<notin> set (lits '';'')" "GroupClose \<notin> set (lits '';'')"
    by (simp_all add: lits_def)
  ultimately have "cap = (s1, drop (length ?w) s1)"
    using rx_match_keeps_capture by blast
  moreover from pre obtain z where "s1 = ?w @ z" unfolding prefix_def ..
  ultimately show ?thesis by (simp add: group1_def)
qed

section \<open>Claims about pick_feature_columns\<close>

text \<open>
  C4. For every non-empty list of rows whose first row has \<open>label_column\<close> among its
  keys, \<open>pick_feature_columns\<close> with an empty or blank \<open>feature_columns\<close> returns the
  keys of the first row without \<open>label_column\<close>, in their original order: the result
  is the filtered header list, it has exactly the headers other than the label, and it
  is a subsequence of the headers.
\<close>

theorem pick_feature_columns_default:
  assumes "rows \<noteq> []" and "label_column \<in> set (keys (hd rows))"
    and "py_strip feature_columns = []"
  shows "\<exists>cols. pick_feature_columns rows label_column feature_columns = Inr cols
           \<and> cols = filter (\<lambda>h. h \<noteq> label_column) (keys (hd rows))
           \<and> set cols = set (keys (hd rows)) - {label_column}
           \<and> subseq cols (keys (hd rows))"
  using assms by (cases rows) (auto simp: pick_feature_columns_def Let_def)

text \<open>An instance: the headers \<open>x\<close>, \<open>category\<close>, \<open>y\<close> with the label \<open>category\<close> and a
  blank list of requested columns.\<close>

theorem pick_feature_columns_default_witness:
  "[[(''x'', Some ''1''), (''category'', Some ''A''), (''y'', Some ''2'')]] \<noteq> []
   \<and> ''category'' \<in> set (keys (hd [[(''x'', Some ''1''), (''category'', Some ''A''), (''y'', Some ''2'')]]))
   \<and> py_strip '' '' = []
   \<and> pick_feature_columns [[(''x'', Some ''1''), (''category'', Some ''A''), (''y'', Some ''2'')]]
         ''category'' '' '' = Inr [''x'', ''y'']"
proof -
  have a: "[[(''x'', Some ''1''), (''category'', Some ''A''), (''y'', Some ''2'')]] \<noteq> ([] :: row list)"
    by simp
  have b: "''category'' \<in> set (keys (hd [[(''x'', Some ''1''), (''category'', Some ''A''), (''y'', Some ''2'')]]))"
    by (simp add: keys_def)
  have c: "py_strip '' '' = []" by code_simp
  from pick_feature_columns_default [OF a b c] a b c show ?thesis
    by (simp add: keys_def)
qed

text \<open>
  C6. For every non-empty list of rows whose first row does not have \<open>label_column\<close>
  among its keys, \<open>pick_feature_columns\<close> fails with a \<open>ValueError\<close> whose message is
  \<open>label column '<label_column>' not in CSV headers: <headers>\<close>: it names the missing
  column and lists all headers, printed as Python prints a list of texts.
\<close>

theorem pick_feature_columns_missing_label:
  assumes "rows \<noteq> []" and "label_column \<notin> set (keys (hd rows))"
  shows "\<exists>msg. pick_feature_columns rows label_column feature_columns = Inl (ValueError msg)
           \<and> msg = ''label column '' @ [squote] @ label_column @ [squote]
                    @ '' not in CSV headers: '' @ py_repr_list (keys (hd rows))
           \<and> sublist label_column msg
           \<and> sublist (py_repr_list (keys (hd rows))) msg"
proof -
  from assms obtain r0 rs where rows: "rows = r0 # rs" by (cases rows) auto
  let ?msg = "''label column '' @ [squote] @ label_column @ [squote]
                    @ '' not in CSV headers: '' @ py_repr_list (keys (hd rows))"
  have "pick_feature_columns rows label_column feature_columns = Inl (ValueError ?msg)"
    using assms rows by (simp add: pick_feature_columns_def Let_def)
  moreover have "sublist label_column ?msg"
    unfolding sublist_def by (rule exI [of _ "''label column '' @ [squote]"]) auto
  moreover have "sublist (py_repr_list (keys (hd rows))) ?msg"
    unfolding sublist_def
    by (rule exI [of _ "''label column '' @ [squote] @ label_column @ [squote]
                    @ '' not in CSV headers: ''"], rule exI [of _ "[]"]) simp
  ultimately show ?thesis by blast
qed

text \<open>The example of the specification: the label \<open>missing_col\<close> against the headers
  \<open>x\<close> and \<open>y\<close>.\<close>

theorem pick_feature_columns_missing_label_witness:
  "[[(''x'', Some ''1''), (''y'', Some ''2'')]] \<noteq> []
   \<and> ''missing_col'' \<notin> set (keys (hd [[(''x'', Some ''1''), (''y'', Some ''2'')]]))
   \<and> pick_feature_columns [[(''x'', Some ''1''), (''y'', Some ''2'')]] ''missing_col'' []
       = Inl (ValueError (''label column '' @ [squote] @ ''missing_col'' @ [squote]
                @ '' not in CSV headers: ['' @ [squote] @ ''x'' @ [squote] @ '', ''
                @ [squote] @ ''y'' @ [squote] @ '']''))"
proof -
  have a: "[[(''x'', Some ''1''), (''y'', Some ''2'')]] \<noteq> ([] :: row list)" by simp
  have b: "''missing_col'' \<notin> set (keys (hd [[(''x'', Some ''1''), (''y'', Some ''2'')]]))"
    by (simp add: keys_def)
  have c: "py_repr_list (keys (hd [[(''x'', Some ''1''), (''y'', Some ''2'')]]))
             = ''['' @ [squote] @ ''x'' @ [squote] @ '', '' @ [squote] @ ''y'' @ [squote] @ '']''"
    by code_simp
  from pick_feature_columns_missing_label [OF a b, of "[]"] a b show ?thesis
    unfolding c by auto
qed

section \<open>Claims about to_dataset\<close>

text \<open>For rows whose kept rows have a text (or nothing) under every feature column,
  \<open>to_dataset\<close> returns one example for each kept row, in the order of the rows, and
  fails with \<open>No usable rows with non-empty labels\<close> when no row is kept.\<close>

lemma to_dataset_text_cells:
  assumes "\<forall>r\<in>set (filter (\<lambda>r. py_strip (label_cell r l) \<noteq> []) rows). text_cells r fc"
  shows "to_dataset rows l fc =
     (let kept = filter (\<lambda>r. py_strip (label_cell r l) \<noteq> []) rows in
      if kept = [] then Inl (ValueError ''No usable rows with non-empty labels'')
      else Inr (map (\<lambda>r. example_of r l fc) kept))"
  by (simp add: to_dataset_def to_dataset_loop_text [OF assms] Let_def)

text \<open>The scenario of the specification: three rows with the labels \<open>A\<close>, blank and
  \<open>B\<close> under \<open>category\<close> give two examples, with the answers \<open>A\<close> and \<open>B\<close>.\<close>

lemma to_dataset_scenario:
  "\<exists>ds. to_dataset [[(''x'', Some ''1''), (''category'', Some ''A'')],
                     [(''x'', Some ''2''), (''category'', Some '' '')],
                     [(''x'', Some ''3''), (''category'', Some ''B'')]] ''category'' [''x'']
          = Inr ds
        \<and> length ds = 2 \<and> map answer ds = [''A'', ''B'']"
proof -
  have "to_dataset [[(''x'', Some ''1''), (''category'', Some ''A'')],
                    [(''x'', Some ''2''), (''category'', Some '' '')],
                    [(''x'', Some ''3''), (''category'', Some ''B'')]] ''category'' [''x'']
        = Inr [\<lparr>input = ''x: 1'', additional_context = [], answer = ''A''\<rparr>,
               \<lparr>input = ''x: 3'', additional_context = [], answer = ''B''\<rparr>]"
    by code_simp
  then show ?thesis by simp
qed

text \<open>
  C5. The claim: for every list of rows, \<open>to_dataset\<close> returns as many examples as
  there are rows with a label that is not empty after trimming. The code: a line of
  the file that is shorter than the header gives a row with \<open>None\<close> cells; on the one
  row with the label \<open>A\<close> and \<open>None\<close> under the feature column \<open>x\<close>, where one row has
  a label and the claim asks for one example, \<open>to_dataset\<close> raises \<open>AttributeError\<close>.
\<close>

theorem to_dataset_none_cell_raises:
  "length (filter (\<lambda>r. py_strip (label_cell r ''category'') \<noteq> [])
             [[(''category'', Some ''A''), (''x'', None)]]) = 1
   \<and> to_dataset [[(''category'', Some ''A''), (''x'', None)]] ''category'' [''x'']
     = Inl (AttributeError ([squote] @ ''NoneType'' @ [squote]
              @ '' object has no attribute '' @ [squote] @ ''strip'' @ [squote]))"
  by code_simp



section \<open>Claims about exact_label_evaluator\<close>

text \<open>
  C10. \<open>exact_label_evaluator\<close> does not return for every response: for every example,
  a response that is empty or has only white space makes it raise \<open>IndexError\<close>, from
  taking the first element of an empty list of lines.
\<close>

theorem exact_label_evaluator_blank_raises:
  assumes "\<forall>c\<in>set response. py_isspace c"
  shows "exact_label_evaluator data response = Inl (IndexError ''list index out of range'')"
proof -
  have "py_strip response = []" using assms by (simp add: py_strip_def strip_by_all)
  then show ?thesis
    by (simp add: exact_label_evaluator_def predicted_label_def py_splitlines_def)
qed

text \<open>An instance: a response of a blank, a tab and a newline.\<close>

theorem exact_label_evaluator_blank_raises_witness:
  "py_isspace CHR '' '' \<and> py_isspace TAB \<and> py_isspace LF
   \<and> exact_label_evaluator \<lparr>input = ''x: 1'', additional_context = [], answer = ''Spam''\<rparr>
        [CHR '' '', TAB, LF]
     = Inl (IndexError ''list index out of range'')"
proof -
  have a: "\<forall>c\<in>set [CHR '' '', TAB, LF]. py_isspace c"
    by (simp add: py_isspace_def)
  from exact_label_evaluator_blank_raises [OF a] a show ?thesis by simp
qed

text \<open>The score of a response that has a character other than white space: the
  evaluator returns, with the score 1 when the normalised prediction is the normalised
  expected label and 0 otherwise.\<close>

lemma exact_label_evaluator_of_prediction:
  assumes "predicted_label response = Inr predicted"
  shows "\<exists>fb. exact_label_evaluator data response
               = Inr \<lparr>score = (if predicted = expected_label data then 1 else 0),
                      feedback = fb, objective_scores = None\<rparr>"
  using assms by (simp add: exact_label_evaluator_def Let_def)

lemma exact_label_evaluator_score:
  assumes "py_strip response \<noteq> []"
  shows "\<exists>predicted fb. predicted_label response = Inr predicted
           \<and> exact_label_evaluator data response
               = Inr \<lparr>score = (if predicted = expected_label data then 1 else 0),
                      feedback = fb, objective_scores = None\<rparr>"
proof -
  from assms have "py_splitlines (py_strip response) \<noteq> []"
    by (simp add: py_splitlines_def splitlines_from_nonempty)
  then obtain l ls where "py_splitlines (py_strip response) = l # ls"
    by (cases "py_splitlines (py_strip response)") auto
  then obtain predicted where p: "predicted_label response = Inr predicted"
    by (simp add: predicted_label_def)
  from exact_label_evaluator_of_prediction [OF p, of data] p show ?thesis by blast
qed

text \<open>The examples of the specification against the expected label \<open>Spam\<close>: \<open>"Spam"\<close>,
  \<open>'spam'\<close> and \<open>spam\<close> followed by a second line score 1, and \<open>SPAM!\<close> scores 0.\<close>

lemma exact_label_evaluator_examples:
  fixes ex :: example
  assumes "answer ex = ''Spam''"
  shows "\<exists>fb. exact_label_evaluator ex ([dquote] @ ''Spam'' @ [dquote])
               = Inr \<lparr>score = 1, feedback = fb, objective_scores = None\<rparr>"
    and "\<exists>fb. exact_label_evaluator ex ([squote] @ ''spam'' @ [squote])
               = Inr \<lparr>score = 1, feedback = fb, objective_scores = None\<rparr>"
    and "\<exists>fb. exact_label_evaluator ex (''spam'' @ [LF] @ ''extra text'')
               = Inr \<lparr>score = 1, feedback = fb, objective_scores = None\<rparr>"
    and "\<exists>fb. exact_label_evaluator ex ''SPAM!''
               = Inr \<lparr>score = 0, feedback = fb, objective_scores = None\<rparr>"
proof -
  have e: "expected_label ex = ''spam''"
    unfolding expected_label_def assms by code_simp
  have p1: "predicted_label ([dquote] @ ''Spam'' @ [dquote]) = Inr ''spam''" by code_simp
  have p2: "predicted_label ([squote] @ ''spam'' @ [squote]) = Inr ''spam''" by code_simp
  have p3: "predicted_label (''spam'' @ [LF] @ ''extra text'') = Inr ''spam''" by code_simp
  have p4: "predicted_label ''SPAM!'' = Inr ''spam!''" by code_simp
  show "\<exists>fb. exact_label_evaluator ex ([dquote] @ ''Spam'' @ [dquote])
               = Inr \<lparr>score = 1, feedback = fb, objective_scores = None\<rparr>"
    using exact_label_evaluator_of_prediction [OF p1, of ex] unfolding e by simp
  show "\<exists>fb. exact_label_evaluator ex ([squote] @ ''spam'' @ [squote])
               = Inr \<lparr>score = 1, feedback = fb, objective_scores = None\<rparr>"
    using exact_label_evaluator_of_prediction [OF p2, of ex] unfolding e by simp
  show "\<exists>fb. exact_label_evaluator ex (''spam'' @ [LF] @ ''extra text'')
               = Inr \<lparr>score = 1, feedback = fb, objective_scores = None\<rparr>"
    using exact_label_evaluator_of_prediction [OF p3, of ex] unfolding e by simp
  show "\<exists>fb. exact_label_evaluator ex ''SPAM!''
               = Inr \<lparr>score = 0, feedback = fb, objective_scores = None\<rparr>"
    using exact_label_evaluator_of_prediction [OF p4, of ex] unfolding e by simp
qed

text \<open>
  C3. The claim gives every response a score of 1.0 or 0.0. The code gives none to the
  empty response: against the expected label \<open>Spam\<close>, where the claim asks for the
  score 0.0, \<open>exact_label_evaluator\<close> raises \<open>IndexError\<close>.
\<close>

theorem exact_label_evaluator_empty_response:
  "exact_label_evaluator \<lparr>input = ''text: buy now'', additional_context = [], answer = ''Spam''\<rparr> []
     = Inl (IndexError ''list index out of range'')"
  by (simp add: exact_label_evaluator_def predicted_label_def py_strip_def strip_by_def
        py_splitlines_def)




text \<open>
  A consequence for quoted labels. For a label \<open>core\<close> without line boundary, whose
  first and last characters are neither white space nor quotes: after any white space
  \<open>lead\<close>, within any number \<open>m\<close>, \<open>n\<close> of double quotes around any number \<open>j\<close>, \<open>k\<close>
  of single quotes, followed by any white space \<open>trail\<close> on the same line and by any
  further lines \<open>rest\<close>, the prediction is \<open>core\<close> in lower case.
\<close>

theorem predicted_label_strips_every_quote:
  assumes core: "core \<noteq> []"
    and nolb: "\<forall>c\<in>set core. \<not> py_islinebreak c"
    and hdc: "\<not> py_isspace (hd core)" "hd core \<noteq> dquote" "hd core \<noteq> squote"
    and lastc: "\<not> py_isspace (last core)" "last core \<noteq> dquote" "last core \<noteq> squote"
    and lead: "\<forall>c\<in>set lead. py_isspace c"
    and trail: "\<forall>c\<in>set trail. py_isspace c \<and> \<not> py_islinebreak c"
    and rest: "rest = [] \<or> py_islinebreak (hd rest)"
  shows "predicted_label (lead @ replicate m dquote @ replicate j squote @ core
                          @ replicate k squote @ replicate n dquote @ trail @ rest)
         = Inr (py_lower core)"
proof -
  let ?inner = "replicate j squote @ core @ replicate k squote"
  let ?body = "replicate m dquote @ ?inner @ replicate n dquote"
  have inner_ne: "?inner \<noteq> []" using core by simp
  have hd_inner: "hd ?inner = (if j = 0 then hd core else squote)"
    using core by (rule hd_pad)
  have last_inner: "last ?inner = (if k = 0 then last core else squote)"
    using last_pad [OF core, of "replicate j squote" k squote] by simp
  have body_ne: "?body \<noteq> []" using core by simp
  have hd_body: "hd ?body = (if m = 0 then hd ?inner else dquote)"
    using inner_ne by (rule hd_pad)
  have last_body: "last ?body = (if n = 0 then last ?inner else dquote)"
    using last_pad [OF inner_ne, of "replicate m dquote" n dquote] by simp
  have hd_body_sp: "\<not> py_isspace (hd ?body)"
    unfolding hd_body hd_inner using hdc(1) quotes_plain(1,2) by simp
  have last_body_sp: "\<not> py_isspace (last ?body)"
    unfolding last_body last_inner using lastc(1) quotes_plain(1,2) by simp
  have body_lb: "\<forall>c\<in>set ?body. \<not> py_islinebreak c"
    using nolb quotes_plain(3,4) by auto

  have "\<exists>t. strip_by py_isspace (lead @ ?body @ trail @ rest) = ?body @ t \<and> prefix t (trail @ rest)"
    using body_ne hd_body_sp last_body_sp lead by (rule strip_by_lead)
  then obtain t where t: "py_strip (lead @ ?body @ trail @ rest) = ?body @ t"
      and pt: "prefix t (trail @ rest)"
    unfolding py_strip_def by blast
  have "\<exists>w z. t = w @ z \<and> (\<forall>c\<in>set w. py_isspace c \<and> \<not> py_islinebreak c)
           \<and> (z = [] \<or> py_islinebreak (hd z))"
  proof -
    from pt have "prefix t trail \<or> (\<exists>us. t = trail @ us \<and> prefix us rest)"
      unfolding prefix_append .
    then show ?thesis
    proof
      assume "prefix t trail"
      then have "set t \<subseteq> set trail" by (rule set_mono_prefix)
      with trail have "\<forall>c\<in>set t. py_isspace c \<and> \<not> py_islinebreak c" by blast
      then have "t = t @ [] \<and> (\<forall>c\<in>set t. py_isspace c \<and> \<not> py_islinebreak c)
           \<and> ([] = [] \<or> py_islinebreak (hd ([] :: string)))" by simp
      then show ?thesis by blast
    next
      assume "\<exists>us. t = trail @ us \<and> prefix us rest"
      then obtain us where us: "t = trail @ us" "prefix us rest" by blast
      have "us = [] \<or> py_islinebreak (hd us)"
      proof (cases us)
        case Nil
        then show ?thesis by simp
      next
        case (Cons u us')
        with us(2) obtain rest' where r: "rest = u # rest'" by (cases rest) auto
        with rest have "py_islinebreak u" by simp
        with Cons show ?thesis by simp
      qed
      with us(1) trail show ?thesis by blast
    qed
  qed
  then obtain w z where tz: "t = w @ z"
      and w: "\<forall>c\<in>set w. py_isspace c \<and> \<not> py_islinebreak c"
      and z: "z = [] \<or> py_islinebreak (hd z)"
    by blast
  have "\<exists>ls. py_splitlines ((?body @ w) @ z) = (?body @ w) # ls"
  proof (rule first_line_plain)
    show "?body @ w \<noteq> []" using core by simp
    show "\<forall>c\<in>set (?body @ w). \<not> py_islinebreak c" using body_lb w by auto
    show "z = [] \<or> py_islinebreak (hd z)" by (rule z)
  qed
  then obtain ls where "py_splitlines ((?body @ w) @ z) = (?body @ w) # ls" ..
  with t tz have lines: "py_splitlines (py_strip (lead @ ?body @ trail @ rest)) = (?body @ w) # ls"
    by simp
  have "strip_by py_isspace ([] @ ?body @ w) = ?body"
    using body_ne hd_body_sp last_body_sp _ _
  proof (rule strip_by_core)
    show "\<forall>c\<in>set []. py_isspace c" by simp
    show "\<forall>c\<in>set w. py_isspace c" using w by blast
  qed
  then have s1: "py_strip (?body @ w) = ?body" by (simp add: py_strip_def)
  have "strip_by (\<lambda>c. c \<in> set [dquote]) (replicate m dquote @ ?inner @ replicate n dquote) = ?inner"
    using inner_ne
  proof (rule strip_by_core)
    show "\<not> hd ?inner \<in> set [dquote]" unfolding hd_inner using hdc(2) by simp
    show "\<not> last ?inner \<in> set [dquote]" unfolding last_inner using lastc(2) by simp
    show "\<forall>c\<in>set (replicate m dquote). c \<in> set [dquote]" by simp
    show "\<forall>c\<in>set (replicate n dquote). c \<in> set [dquote]" by simp
  qed
  then have s2: "py_strip_chars [dquote] ?body = ?inner" by (simp only: py_strip_chars_def)
  have "strip_by (\<lambda>c. c \<in> set [squote]) (replicate j squote @ core @ replicate k squote) = core"
    using core
  proof (rule strip_by_core)
    show "\<not> hd core \<in> set [squote]" using hdc(3) by simp
    show "\<not> last core \<in> set [squote]" using lastc(3) by simp
    show "\<forall>c\<in>set (replicate j squote). c \<in> set [squote]" by simp
    show "\<forall>c\<in>set (replicate k squote). c \<in> set [squote]" by simp
  qed
  then have s3: "py_strip_chars [squote] ?inner = core" by (simp only: py_strip_chars_def)
  have "predicted_label (lead @ ?body @ trail @ rest) = Inr (py_lower core)"
    unfolding predicted_label_def lines by (simp only: list.case s1 s2 s3)
  then show ?thesis by simp
qed

text \<open>An instance: a newline and a blank, then \<open>Spam\<close> within two double quotes and one
  single quote on each side, a blank, and a second line.\<close>

theorem predicted_label_strips_every_quote_witness:
  "predicted_label ([LF, CHR '' ''] @ replicate 2 dquote @ replicate 1 squote @ ''Spam''
                    @ replicate 1 squote @ replicate 2 dquote @ '' '' @ (LF # ''extra''))
     = Inr ''spam''"
proof -
  have c: "''Spam'' \<noteq> []" by simp
  have nolb: "\<forall>c\<in>set ''Spam''. \<not> py_islinebreak c" by (simp add: py_islinebreak_def)
  have h: "\<not> py_isspace (hd ''Spam'')" "hd ''Spam'' \<noteq> dquote" "hd ''Spam'' \<noteq> squote"
    by (simp_all add: py_isspace_def)
  have l: "\<not> py_isspace (last ''Spam'')" "last ''Spam'' \<noteq> dquote" "last ''Spam'' \<noteq> squote"
    by (simp_all add: py_isspace_def)
  have lead: "\<forall>c\<in>set [LF, CHR '' '']. py_isspace c" by (simp add: py_isspace_def)
  have trail: "\<forall>c\<in>set '' ''. py_isspace c \<and> \<not> py_islinebreak c"
    by (simp add: py_isspace_def py_islinebreak_def)
  have rest: "LF # ''extra'' = [] \<or> py_islinebreak (hd (LF # ''extra''))"
    by (simp add: py_islinebreak_def)
  have low: "py_lower ''Spam'' = ''spam''" by code_simp
  from predicted_label_strips_every_quote [OF c nolb h l lead trail rest, of 2 1 1 2]
  show ?thesis unfolding low .
qed

section \<open>Claims about extract_prompt_from_service and build_seed_prompt\<close>

text \<open>Whatever the service file holds, \<open>extract_prompt_from_service\<close> raises: when the
  pattern of line 73 matches, its group 1 is the fixed text of a double quote, two
  backslashes, \<open>n\<close>, a double quote and a backslash, which has no part within
  backticks.\<close>

theorem extract_prompt_never_returns:
  "\<exists>e. extract_prompt_from_service fs path = Inl e"
proof (cases "fs path")
  case None
  then show ?thesis by (simp add: extract_prompt_from_service_def read_text_def)
next
  case (Some st)
  show ?thesis
  proof (cases st)
    case Undecodable
    with Some show ?thesis by (simp add: extract_prompt_from_service_def read_text_def)
  next
    case (Decodable raw)
    with Some have fc: "read_text fs path = Inr (universal_newlines raw)"
      by (simp add: read_text_def)
    show ?thesis
    proof (cases "re_search prompt_block_pattern (universal_newlines raw)")
      case None
      with fc show ?thesis by (simp add: extract_prompt_from_service_def)
    next
      case (Some m)
      obtain cap rest where m: "m = (cap, rest)" by (cases m)
      with Some have "group1 cap = prompt_block_group"
        using prompt_block_group_fixed by blast
      moreover have "re_findall template_part_pattern prompt_block_group = []"
        by code_simp
      ultimately show ?thesis using Some m fc
        by (simp add: extract_prompt_from_service_def)
    qed
  qed
qed

text \<open>
  C1. The claim: from a source text with one assignment
  \<open>const prompt = [ ... ].join("\n");\<close> of a list of texts within backticks,
  \<open>extract_prompt_from_service\<close> returns the texts joined with newlines. The code: on
  the source text \<open>const prompt = [`You are helpful.`].join("\n");\<close> it fails with the
  \<open>ValueError\<close> \<open>Could not find prompt block in llmService.ts\<close>, since the pattern asks
  for a backslash after \<open>const\<close>.
\<close>

theorem extract_prompt_misses_prompt_block:
  "extract_prompt_from_service
     (map_of [(''llmService.ts'',
               Decodable
                 (''const prompt = ['' @ [backtick] @ ''You are helpful.'' @ [backtick]
                  @ ''].join('' @ [dquote, backslash, CHR ''n'', dquote] @ '');''))])
     ''llmService.ts''
   = Inl (ValueError ''Could not find prompt block in llmService.ts'')"
  by code_simp

lemma py_replace_nonempty: "old \<noteq> [] \<Longrightarrow> py_replace old new s = replace_nonempty old new s"
  by (simp add: py_replace_def)

text \<open>
  C8. The rewriting of the placeholders in \<open>extract_prompt_from_service\<close>, which puts
  \<open>{business_type}\<close> for \<open>${businessType}\<close> and then \<open>{aggressiveness_level}\<close> for
  \<open>${aggressivenessLevel}\<close>, is idempotent: for every text, rewriting the rewritten
  text changes nothing.
\<close>

theorem rewrite_placeholders_idempotent:
  "rewrite_placeholders (rewrite_placeholders prompt) = rewrite_placeholders prompt"
proof -
  let ?D1 = "''${businessType}''" and ?A = "''{business_type}''"
  let ?D2 = "''${aggressivenessLevel}''" and ?B = "''{aggressiveness_level}''"
  let ?x1 = "replace_nonempty ?D1 ?A prompt"
  let ?x2 = "replace_nonempty ?D2 ?B ?x1"
  have r: "rewrite_placeholders prompt = ?x2"
    by (simp add: rewrite_placeholders_def py_replace_nonempty)
  have "\<not> sublist ?D1 ?x1"
  proof (rule replace_nonempty_removes)
    show "?D1 = CHR ''$'' # ''{businessType}''" by simp
    show "CHR ''$'' \<notin> set ?A" by simp
    show "clash_free ''{businessType}'' ?A" by code_simp
  qed
  then have d1: "\<not> sublist ?D1 ?x2"
  proof (rule replace_nonempty_creates_nothing [rotated 3])
    show "?D1 \<noteq> []" by simp
    show "hd ?D1 \<notin> set ?B" by simp
    show "clash_free ?D1 ?B" by code_simp
  qed
  have d2: "\<not> sublist ?D2 ?x2"
  proof (rule replace_nonempty_removes)
    show "?D2 = CHR ''$'' # ''{aggressivenessLevel}''" by simp
    show "CHR ''$'' \<notin> set ?B" by simp
    show "clash_free ''{aggressivenessLevel}'' ?B" by code_simp
  qed
  have "rewrite_placeholders ?x2 = replace_nonempty ?D2 ?B (replace_nonempty ?D1 ?A ?x2)"
    by (simp add: rewrite_placeholders_def py_replace_nonempty)
  also have "\<dots> = replace_nonempty ?D2 ?B ?x2"
    by (simp only: replace_nonempty_absent [OF d1])
  also have "\<dots> = ?x2"
    by (simp only: replace_nonempty_absent [OF d2])
  finally show ?thesis unfolding r .
qed

text \<open>An instance with both placeholders and one interpolation that is not
  rewritten.\<close>

theorem rewrite_placeholders_idempotent_witness:
  "rewrite_placeholders ''Advise a ${businessType}, ${aggressivenessLevel}ly, ${other}''
     = ''Advise a {business_type}, {aggressiveness_level}ly, ${other}''
   \<and> rewrite_placeholders ''Advise a {business_type}, {aggressiveness_level}ly, ${other}''
     = ''Advise a {business_type}, {aggressiveness_level}ly, ${other}''"
proof -
  have a: "rewrite_placeholders ''Advise a ${businessType}, ${aggressivenessLevel}ly, ${other}''
             = ''Advise a {business_type}, {aggressiveness_level}ly, ${other}''"
    by code_simp
  from rewrite_placeholders_idempotent
         [of "''Advise a ${businessType}, ${aggressivenessLevel}ly, ${other}''"]
  show ?thesis unfolding a by simp
qed

text \<open>
  C7, as stated, fails on a seed prompt file that holds \<open>${businessType}\<close>: the file is
  used as it is, so with both placeholders in it, and \<open>bakery\<close> and \<open>high\<close> as values,
  the final text still has \<open>${businessType}\<close>.
\<close>

theorem build_seed_prompt_keeps_interpolation_counterexample:
  "sublist ''{business_type}'' ''A {business_type}, {aggressiveness_level}, ${businessType}.''
   \<and> sublist ''{aggressiveness_level}''
         ''A {business_type}, {aggressiveness_level}, ${businessType}.''
   \<and> build_seed_prompt
         (map_of [(''seed.txt'',
                   Decodable ''A {business_type}, {aggressiveness_level}, ${businessType}.'')])
         \<lparr>seed_prompt_file = ''seed.txt'', service_file = ''llmService.ts'',
          business_type = ''bakery'', aggressiveness_level = ''high''\<rparr>
       = Inr [(''system_prompt'', ''A bakery, high, ${businessType}.'' @ [LF, LF]
                 @ ''Return only the label string. No explanation.'')]
   \<and> sublist ''${businessType}''
         (''A bakery, high, ${businessType}.'' @ [LF, LF]
            @ ''Return only the label string. No explanation.'')"
  by code_simp

text \<open>
  C7, amended. For every template (the seed prompt file, or the extracted prompt) that
  has both \<open>{business_type}\<close> and \<open>{aggressiveness_level}\<close>, the seed prompt built with
  the business type \<open>bakery\<close> and the aggressiveness level \<open>high\<close> has neither
  \<open>{business_type}\<close> nor \<open>{aggressiveness_level}\<close>, has \<open>bakery\<close> and \<open>high\<close>, and ends
  with the fixed suffix; it has \<open>${businessType}\<close> or \<open>${aggressivenessLevel}\<close> only if
  the template has it.
\<close>

theorem build_seed_prompt_fills_placeholders:
  assumes tmpl: "seed_template fs a = Inr template"
    and hasA: "sublist ''{business_type}'' template"
    and hasB: "sublist ''{aggressiveness_level}'' template"
    and bt: "business_type a = ''bakery''"
    and al: "aggressiveness_level a = ''high''"
  shows "\<exists>out. build_seed_prompt fs a = Inr [(''system_prompt'', out)]
           \<and> \<not> sublist ''{business_type}'' out
           \<and> \<not> sublist ''{aggressiveness_level}'' out
           \<and> sublist ''bakery'' out \<and> sublist ''high'' out
           \<and> suffix return_only_suffix out
           \<and> (\<not> sublist ''${businessType}'' template \<longrightarrow> \<not> sublist ''${businessType}'' out)
           \<and> (\<not> sublist ''${aggressivenessLevel}'' template
                \<longrightarrow> \<not> sublist ''${aggressivenessLevel}'' out)"
proof -
  let ?A = "''{business_type}''" and ?B = "''{aggressiveness_level}''"
  let ?D1 = "''${businessType}''" and ?D2 = "''${aggressivenessLevel}''"
  let ?x1 = "replace_nonempty ?A ''bakery'' template"
  let ?x2 = "replace_nonempty ?B ''high'' ?x1"
  let ?out = "?x2 @ return_only_suffix"
  have build: "build_seed_prompt fs a = Inr [(''system_prompt'', ?out)]"
    by (simp add: build_seed_prompt_def tmpl bt al fill_template_def py_replace_nonempty)
  have brace: "CHR ''}'' \<notin> set return_only_suffix"
    by (simp add: return_only_suffix_def)

  have "\<not> sublist ?A ?x1"
  proof (rule replace_nonempty_removes)
    show "?A = CHR ''{'' # ''business_type}''" by simp
    show "CHR ''{'' \<notin> set ''bakery''" by simp
    show "clash_free ''business_type}'' ''bakery''" by code_simp
  qed
  then have "\<not> sublist ?A ?x2"
  proof (rule replace_nonempty_creates_nothing [rotated 3])
    show "?A \<noteq> []" by simp
    show "hd ?A \<notin> set ''high''" by simp
    show "clash_free ?A ''high''" by code_simp
  qed
  then have noA: "\<not> sublist ?A ?out"
  proof (rule sublist_before_tail [rotated 2])
    show "?A \<noteq> []" by simp
    show "last ?A \<notin> set return_only_suffix" using brace by simp
  qed

  have "\<not> sublist ?B ?x2"
  proof (rule replace_nonempty_removes)
    show "?B = CHR ''{'' # ''aggressiveness_level}''" by simp
    show "CHR ''{'' \<notin> set ''high''" by simp
    show "clash_free ''aggressiveness_level}'' ''high''" by code_simp
  qed
  then have noB: "\<not> sublist ?B ?out"
  proof (rule sublist_before_tail [rotated 2])
    show "?B \<noteq> []" by simp
    show "last ?B \<notin> set return_only_suffix" using brace by simp
  qed

  have "sublist ''bakery'' ?x1"
    using hasA by (rule replace_nonempty_inserts) simp
  then have "sublist ''bakery'' ?x2"
  proof (rule replace_nonempty_keeps_plain [rotated 4])
    show "?B \<noteq> []" by simp
    show "hd ?B \<notin> set ''bakery''" by simp
    show "last ?B \<notin> set ''bakery''" by simp
    show "\<not> sublist ''bakery'' ?B" by code_simp
  qed
  then have bakery: "sublist ''bakery'' ?out" by (simp add: sublist_append)

  have "sublist ?B ?x1"
  proof (rule replace_nonempty_keeps_sibling [OF _ _ _ _ _ _ hasB])
    show "?A = CHR ''{'' # ''business_type}''" by simp
    show "CHR ''{'' \<notin> set ''business_type}''" by simp
    show "?B = CHR ''{'' # ''aggressiveness_level}''" by simp
    show "CHR ''{'' \<notin> set ''aggressiveness_level}''" by simp
    show "\<not> prefix ?A ?B" by simp
    show "\<not> prefix ?B ?A" by simp
  qed
  then have "sublist ''high'' ?x2"
    by (rule replace_nonempty_inserts) simp
  then have high: "sublist ''high'' ?out" by (simp add: sublist_append)

  have sfx: "suffix return_only_suffix ?out" unfolding suffix_def by blast

  have keepD1: "\<not> sublist ?D1 ?out" if "\<not> sublist ?D1 template"
  proof -
    from that have "\<not> sublist ?D1 ?x1"
    proof (rule replace_nonempty_creates_nothing [rotated 3])
      show "?D1 \<noteq> []" by simp
      show "hd ?D1 \<notin> set ''bakery''" by simp
      show "clash_free ?D1 ''bakery''" by code_simp
    qed
    then have "\<not> sublist ?D1 ?x2"
    proof (rule replace_nonempty_creates_nothing [rotated 3])
      show "?D1 \<noteq> []" by simp
      show "hd ?D1 \<notin> set ''high''" by simp
      show "clash_free ?D1 ''high''" by code_simp
    qed
    then show ?thesis
    proof (rule sublist_before_tail [rotated 2])
      show "?D1 \<noteq> []" by simp
      show "last ?D1 \<notin> set return_only_suffix" using brace by simp
    qed
  qed
  have keepD2: "\<not> sublist ?D2 ?out" if "\<not> sublist ?D2 template"
  proof -
    from that have "\<not> sublist ?D2 ?x1"
    proof (rule replace_nonempty_creates_nothing [rotated 3])
      show "?D2 \<noteq> []" by simp
      show "hd ?D2 \<notin> set ''bakery''" by simp
      show "clash_free ?D2 ''bakery''" by code_simp
    qed
    then have "\<not> sublist ?D2 ?x2"
    proof (rule replace_nonempty_creates_nothing [rotated 3])
      show "?D2 \<noteq> []" by simp
      show "hd ?D2 \<notin> set ''high''" by simp
      show "clash_free ?D2 ''high''" by code_simp
    qed
    then show ?thesis
    proof (rule sublist_before_tail [rotated 2])
      show "?D2 \<noteq> []" by simp
      show "last ?D2 \<notin> set return_only_suffix" using brace by simp
    qed
  qed
  from build noA noB bakery high sfx keepD1 keepD2 show ?thesis by blast
qed

text \<open>An instance: a seed prompt file with both placeholders.\<close>

theorem build_seed_prompt_fills_placeholders_witness:
  "build_seed_prompt
     (map_of [(''seed.txt'',
               Decodable ''You advise a {business_type}. Be {aggressiveness_level}.'')])
     \<lparr>seed_prompt_file = ''seed.txt'', service_file = ''llmService.ts'',
      business_type = ''bakery'', aggressiveness_level = ''high''\<rparr>
   = Inr [(''system_prompt'', ''You advise a bakery. Be high.'' @ [LF, LF]
             @ ''Return only the label string. No explanation.'')]
   \<and> (\<exists>out. build_seed_prompt
         (map_of [(''seed.txt'',
               Decodable ''You advise a {business_type}. Be {aggressiveness_level}.'')])
         \<lparr>seed_prompt_file = ''seed.txt'', service_file = ''llmService.ts'',
          business_type = ''bakery'', aggressiveness_level = ''high''\<rparr>
           = Inr [(''system_prompt'', out)]
         \<and> \<not> sublist ''{business_type}'' out \<and> \<not> sublist ''{aggressiveness_level}'' out
         \<and> sublist ''bakery'' out \<and> sublist ''high'' out
         \<and> suffix return_only_suffix out
         \<and> \<not> sublist ''${businessType}'' out \<and> \<not> sublist ''${aggressivenessLevel}'' out)"
proof -
  let ?t = "''You advise a {business_type}. Be {aggressiveness_level}.''"
  let ?fs = "map_of [(''seed.txt'', Decodable ?t)]"
  let ?a = "\<lparr>seed_prompt_file = ''seed.txt'', service_file = ''llmService.ts'',
      business_type = ''bakery'', aggressiveness_level = ''high''\<rparr>"
  have t: "seed_template ?fs ?a = Inr ?t"
    by code_simp
  have hA: "sublist ''{business_type}'' ?t" by code_simp
  have hB: "sublist ''{aggressiveness_level}'' ?t" by code_simp
  have n1: "\<not> sublist ''${businessType}'' ?t" by code_simp
  have n2: "\<not> sublist ''${aggressivenessLevel}'' ?t" by code_simp
  have v: "build_seed_prompt ?fs ?a
             = Inr [(''system_prompt'', ''You advise a bakery. Be high.'' @ [LF, LF]
                       @ ''Return only the label string. No explanation.'')]"
    by code_simp
  from build_seed_prompt_fills_placeholders [OF t hA hB, of] n1 n2 v
  show ?thesis by auto
qed

end
